theory Spec2Isabelle
  imports Main "HOL-Library.Word"
begin

unbundle bit_operations_syntax

section \<open>Message queue clock and queue nodes (util/queue.h)\<close>

text \<open>
  The kernel types \<open>u64\<close> and \<open>unsigned long\<close> (on a 64-bit build) are 64-bit
  words: \<open>+\<close> wraps modulo \<open>2 ^ 64\<close>, \<open>\<le>\<close> and \<open>max\<close> are the unsigned order.
\<close>

type_synonym u64 = "64 word"

text \<open>\<open>#define BUS1_QUEUE_TYPE_SHIFT (62)\<close> and
  \<open>#define BUS1_QUEUE_TYPE_MASK (((u64)3ULL) << BUS1_QUEUE_TYPE_SHIFT)\<close>.\<close>

definition BUS1_QUEUE_TYPE_SHIFT :: nat where
  "BUS1_QUEUE_TYPE_SHIFT = 62"

definition BUS1_QUEUE_TYPE_MASK :: u64 where
  "BUS1_QUEUE_TYPE_MASK = push_bit BUS1_QUEUE_TYPE_SHIFT 3"

text \<open>
  \<open>struct bus1_queue_node\<close>. The linkage union is represented by the one thing the
  header asks of it: \<open>rb_empty\<close> is the value of the kernel macro
  \<open>RB_EMPTY_NODE(&node->rb)\<close>, true exactly when the tree link is detached
  (\<open>RB_CLEAR_NODE\<close> makes it true). \<open>ref\<close> is the counter inside the \<open>kref\<close>.
\<close>

record bus1_queue_node =
  rb_empty :: bool
  ref :: nat
  sender :: u64
  timestamp_and_type :: u64

text \<open>\<open>struct bus1_queue\<close>: the clock, the cached front entry and the root of the
  tree, the two pointers as optional addresses (\<open>None\<close> is \<open>NULL\<close>).\<close>

record bus1_queue =
  clock :: u64
  front :: "nat option"
  messages :: "nat option"

text \<open>
  \<open>WARN_ON(cond)\<close> prints a report to the kernel log when \<open>cond\<close> holds and
  execution continues. The functions that contain a \<open>WARN_ON\<close> return, next to their
  C result, whether the report was made.
\<close>

text \<open>\<open>type\<close> is an \<open>unsigned int\<close>, widened to \<open>u64\<close> by the mask test and by the
  cast before the shift.\<close>

definition bus1_queue_node_init :: "bus1_queue_node \<Rightarrow> 32 word \<Rightarrow> u64 \<Rightarrow> bool \<times> bus1_queue_node" where
  "bus1_queue_node_init node type sndr =
     (ucast type AND NOT (drop_bit BUS1_QUEUE_TYPE_SHIFT BUS1_QUEUE_TYPE_MASK) \<noteq> 0,
      node\<lparr>rb_empty := True, ref := 1, sender := sndr,
           timestamp_and_type := push_bit BUS1_QUEUE_TYPE_SHIFT (ucast type)\<rparr>)"

definition bus1_queue_node_get_type :: "bus1_queue_node \<Rightarrow> 32 word" where
  "bus1_queue_node_get_type node = ucast
    (drop_bit BUS1_QUEUE_TYPE_SHIFT (timestamp_and_type node AND BUS1_QUEUE_TYPE_MASK))"

definition bus1_queue_node_get_timestamp :: "bus1_queue_node \<Rightarrow> u64" where
  "bus1_queue_node_get_timestamp node = timestamp_and_type node AND NOT BUS1_QUEUE_TYPE_MASK"

definition bus1_queue_node_is_queued :: "bus1_queue_node \<Rightarrow> bool" where
  "bus1_queue_node_is_queued node = (\<not> rb_empty node)"

text \<open>The C function returns \<open>bool\<close>: the \<open>u64\<close> value of
  \<open>bus1_queue_node_get_timestamp(node) & 1\<close> converts to true when it is not zero.\<close>

definition bus1_queue_node_is_staging :: "bus1_queue_node \<Rightarrow> bool" where
  "bus1_queue_node_is_staging node = (bus1_queue_node_get_timestamp node AND 1 \<noteq> 0)"

text \<open>\<open>queue->clock += 2; return queue->clock;\<close>\<close>

definition bus1_queue_tick :: "bus1_queue \<Rightarrow> u64 \<times> bus1_queue" where
  "bus1_queue_tick queue =
     (let queue' = queue\<lparr>clock := clock queue + 2\<rparr> in (clock queue', queue'))"

text \<open>\<open>WARN_ON(timestamp & 1); queue->clock = max(queue->clock, timestamp);
  return queue->clock;\<close> The result is (warned, returned value, queue).\<close>

definition bus1_queue_sync :: "bus1_queue \<Rightarrow> u64 \<Rightarrow> bool \<times> u64 \<times> bus1_queue" where
  "bus1_queue_sync queue timestamp =
     (let queue' = queue\<lparr>clock := max (clock queue) timestamp\<rparr>
      in (timestamp AND 1 \<noteq> 0, clock queue', queue'))"

text \<open>A queue whose clock is driven by a sequence of tick and sync calls.\<close>

datatype clock_op = Tick | Sync u64

fun clock_step :: "clock_op \<Rightarrow> bus1_queue \<Rightarrow> bus1_queue" where
  "clock_step Tick queue = snd (bus1_queue_tick queue)"
| "clock_step (Sync t) queue = snd (snd (bus1_queue_sync queue t))"

fun clock_run :: "clock_op list \<Rightarrow> bus1_queue \<Rightarrow> bus1_queue" where
  "clock_run [] queue = queue"
| "clock_run (x # xs) queue = clock_run xs (clock_step x queue)"

text \<open>The largest clock value a tick can leave without wrapping: \<open>2 ^ 64 - 3\<close>.\<close>

definition tick_fits :: "bus1_queue \<Rightarrow> bool" where
  "tick_fits queue = (clock queue \<le> 0xFFFFFFFFFFFFFFFD)"

text \<open>Every tick of the run is made at a clock that does not wrap.\<close>

fun ticks_fit :: "clock_op list \<Rightarrow> bus1_queue \<Rightarrow> bool" where
  "ticks_fit [] queue = True"
| "ticks_fit (Tick # xs) queue = (tick_fits queue \<and> ticks_fit xs (clock_step Tick queue))"
| "ticks_fit (Sync t # xs) queue = ticks_fit xs (clock_step (Sync t) queue)"

text \<open>Every sync of the run is given an even timestamp.\<close>

fun syncs_even :: "clock_op list \<Rightarrow> bool" where
  "syncs_even [] = True"
| "syncs_even (Tick # xs) = syncs_even xs"
| "syncs_even (Sync t # xs) = (even t \<and> syncs_even xs)"


section \<open>Active references (active.c)\<close>

text \<open>
  The counter of a \<open>struct bus1_active\<close> is an \<open>atomic_t\<close>: a 32-bit two's complement
  \<open>int\<close> whose atomic operations wrap around. It is a 32-bit word here; the signed
  comparisons of the C code are \<open><s\<close> and \<open>\<le>s\<close>, which compare the \<open>sint\<close> readings.
\<close>

type_synonym s32 = "32 word"

definition INT_MIN :: s32 where
  "INT_MIN = 0x80000000"

definition BUS1_ACTIVE_BIAS :: s32 where
  "BUS1_ACTIVE_BIAS = INT_MIN + 5"

definition BUS1_ACTIVE_RELEASE_DIRECT :: s32 where
  "BUS1_ACTIVE_RELEASE_DIRECT = BUS1_ACTIVE_BIAS - 1"

definition BUS1_ACTIVE_RELEASE :: s32 where
  "BUS1_ACTIVE_RELEASE = BUS1_ACTIVE_BIAS - 2"

definition BUS1_ACTIVE_DRAINED :: s32 where
  "BUS1_ACTIVE_DRAINED = BUS1_ACTIVE_BIAS - 3"

definition BUS1_ACTIVE_NEW :: s32 where
  "BUS1_ACTIVE_NEW = BUS1_ACTIVE_BIAS - 4"

definition BUS1_ACTIVE_RESERVED :: s32 where
  "BUS1_ACTIVE_RESERVED = BUS1_ACTIVE_BIAS - 5"

text \<open>
  Pointers are addresses, \<open>NULL\<close> is \<open>None\<close> of an optional address. A release
  callback is known by the address of its function.
\<close>

type_synonym addr = nat
type_synonym waitq = nat
type_synonym callback = nat

text \<open>
  What a call does beyond returning a value is written to a log, in order: a
  \<open>WARN_ON\<close> report, a store to the counter of the object at an address (an atomic
  operation that fails stores nothing), a call of the release callback on an object,
  \<open>wake_up\<close> and \<open>wake_up_all\<close> on a wait-queue. The callback is opaque: its call is
  logged, and it is taken to leave the counter alone, as it must not call back into
  these functions on the object.
\<close>

datatype event =
    WARN
  | STORE addr s32
  | CALL callback addr
  | WAKE_UP waitq
  | WAKE_UP_ALL waitq

text \<open>
  Modelled from the spec: \<open>struct bus1_active\<close> is declared in active.h, which is not
  among the sources; by section 3.1 of the specification it holds a single signed
  32-bit counter \<open>count\<close> (the lockdep map of debug builds only annotates and is left
  out, with every \<open>CONFIG_DEBUG_LOCK_ALLOC\<close> block). \<open>mem s a\<close> is the counter of
  the object at address \<open>a\<close>.
\<close>

record kstate =
  mem :: "addr \<Rightarrow> s32"
  klog :: "event list"

definition emit :: "event \<Rightarrow> kstate \<Rightarrow> kstate" where
  "emit e s = s\<lparr>klog := klog s @ [e]\<rparr>"

subsection \<open>The kernel's atomic operations on the counter\<close>

definition atomic_read :: "addr \<Rightarrow> kstate \<Rightarrow> s32" where
  "atomic_read a s = mem s a"

definition atomic_set :: "addr \<Rightarrow> s32 \<Rightarrow> kstate \<Rightarrow> kstate" where
  "atomic_set a v s = emit (STORE a v) (s\<lparr>mem := (mem s)(a := v)\<rparr>)"

text \<open>\<open>atomic_cmpxchg(v, old, new)\<close> stores \<open>new\<close> if the counter is \<open>old\<close> and returns
  the value it found.\<close>

definition atomic_cmpxchg :: "addr \<Rightarrow> s32 \<Rightarrow> s32 \<Rightarrow> kstate \<Rightarrow> s32 \<times> kstate" where
  "atomic_cmpxchg a old new s =
     (if mem s a = old then (mem s a, atomic_set a new s) else (mem s a, s))"

text \<open>\<open>atomic_inc_unless_negative(v)\<close> adds one if the counter is not negative and
  says whether it did.\<close>

definition atomic_inc_unless_negative :: "addr \<Rightarrow> kstate \<Rightarrow> bool \<times> kstate" where
  "atomic_inc_unless_negative a s =
     (if 0 \<le>s mem s a then (True, atomic_set a (mem s a + 1) s) else (False, s))"

text \<open>\<open>atomic_dec_return(v)\<close> subtracts one and returns the new value.\<close>

definition atomic_dec_return :: "addr \<Rightarrow> kstate \<Rightarrow> s32 \<times> kstate" where
  "atomic_dec_return a s = (mem s a - 1, atomic_set a (mem s a - 1) s)"

subsection \<open>The functions of active.c, each run without interference\<close>

definition bus1_active_init :: "addr \<Rightarrow> kstate \<Rightarrow> kstate" where
  "bus1_active_init active s = atomic_set active BUS1_ACTIVE_NEW s"

definition bus1_active_destroy :: "addr \<Rightarrow> kstate \<Rightarrow> kstate" where
  "bus1_active_destroy active s =
     (if atomic_read active s \<noteq> BUS1_ACTIVE_DRAINED then emit WARN s else s)"

definition bus1_active_is_new :: "addr \<Rightarrow> kstate \<Rightarrow> bool" where
  "bus1_active_is_new active s = (atomic_read active s = BUS1_ACTIVE_NEW)"

definition bus1_active_is_active :: "addr \<Rightarrow> kstate \<Rightarrow> bool" where
  "bus1_active_is_active active s = (0 \<le>s atomic_read active s)"

definition bus1_active_is_deactivated :: "addr \<Rightarrow> kstate \<Rightarrow> bool" where
  "bus1_active_is_deactivated active s =
     (let v = atomic_read active s in BUS1_ACTIVE_NEW <s v \<and> v <s 0)"

definition bus1_active_activate :: "addr \<Rightarrow> kstate \<Rightarrow> bool \<times> kstate" where
  "bus1_active_activate active s =
     (let (v, s') = atomic_cmpxchg active BUS1_ACTIVE_NEW 0 s in (v = BUS1_ACTIVE_NEW, s'))"

text \<open>
  The loop of \<open>bus1_active_add_unless_negative\<close>, entered with the value \<open>v\<close> read
  last: \<open>for (...; v >= 0; v = v1) { v1 = atomic_cmpxchg(&active->count, v, v + add);
  if (v1 == v) return 1; } return 0;\<close>
\<close>

function add_unless_negative_loop :: "addr \<Rightarrow> s32 \<Rightarrow> s32 \<Rightarrow> kstate \<Rightarrow> s32 \<times> kstate" where
  "add_unless_negative_loop active add v s =
     (if 0 \<le>s v then
        (case atomic_cmpxchg active v (v + add) s of
           (v1, s') \<Rightarrow> if v1 = v then (1, s') else add_unless_negative_loop active add v1 s')
      else (0, s))"
  by pat_completeness auto
termination
  by (relation "measure (\<lambda>(active, add, v, s). if mem s active = v then 0 else 1)")
     (auto simp: atomic_cmpxchg_def split: if_splits)

declare add_unless_negative_loop.simps [simp del]

definition bus1_active_add_unless_negative :: "addr \<Rightarrow> s32 \<Rightarrow> kstate \<Rightarrow> s32 \<times> kstate" where
  "bus1_active_add_unless_negative active add s =
     add_unless_negative_loop active add (atomic_read active s) s"

definition bus1_active_deactivate :: "addr \<Rightarrow> kstate \<Rightarrow> kstate" where
  "bus1_active_deactivate active s =
     (let (v, s') = atomic_cmpxchg active BUS1_ACTIVE_NEW BUS1_ACTIVE_RELEASE_DIRECT s
      in if v \<noteq> BUS1_ACTIVE_NEW
         then snd (bus1_active_add_unless_negative active BUS1_ACTIVE_BIAS s')
         else s')"

text \<open>
  \<open>wait_event(*waitq, cond)\<close> returns once \<open>cond\<close> holds. A call that runs without
  interference finds the condition either true, and goes on, or false for ever: then
  the call never returns, which is the result \<open>None\<close>.
\<close>

definition bus1_active_drain ::
  "addr \<Rightarrow> waitq \<Rightarrow> callback option \<Rightarrow> kstate \<Rightarrow> (bool \<times> kstate) option" where
  "bus1_active_drain active waitq release s =
     (if \<not> bus1_active_is_deactivated active s then Some (False, emit WARN s)
      else if \<not> atomic_read active s \<le>s BUS1_ACTIVE_BIAS then None
      else
        let (v, s) = atomic_cmpxchg active BUS1_ACTIVE_RELEASE_DIRECT BUS1_ACTIVE_RELEASE s;
            (v, s) = (if v \<noteq> BUS1_ACTIVE_RELEASE_DIRECT
                      then atomic_cmpxchg active BUS1_ACTIVE_BIAS BUS1_ACTIVE_RELEASE s
                      else (v, s))
        in if v = BUS1_ACTIVE_BIAS \<or> v = BUS1_ACTIVE_RELEASE_DIRECT then
             let s = (case release of None \<Rightarrow> s | Some f \<Rightarrow> emit (CALL f active) s);
                 s = atomic_set active BUS1_ACTIVE_DRAINED s;
                 s = emit (WAKE_UP_ALL waitq) s
             in Some (v = BUS1_ACTIVE_BIAS \<or> v = BUS1_ACTIVE_RELEASE_DIRECT, s)
           else if atomic_read active s = BUS1_ACTIVE_DRAINED
             then Some (v = BUS1_ACTIVE_BIAS \<or> v = BUS1_ACTIVE_RELEASE_DIRECT, s)
             else None)"

text \<open>\<open>res = active && atomic_inc_unless_negative(&active->count);
  return res ? active : NULL;\<close>\<close>

definition bus1_active_acquire :: "addr option \<Rightarrow> kstate \<Rightarrow> addr option \<times> kstate" where
  "bus1_active_acquire active s =
     (case active of
        None \<Rightarrow> (None, s)
      | Some a \<Rightarrow>
          let (res, s') = atomic_inc_unless_negative a s
          in (if res then active else None, s'))"

definition bus1_active_release ::
  "addr option \<Rightarrow> waitq option \<Rightarrow> kstate \<Rightarrow> addr option \<times> kstate" where
  "bus1_active_release active waitq s =
     (case active of
        None \<Rightarrow> (None, s)
      | Some a \<Rightarrow>
          let (v, s') = atomic_dec_return a s
          in if v = BUS1_ACTIVE_BIAS
             then (case waitq of
                     None \<Rightarrow> (None, s')
                   | Some w \<Rightarrow> (None, emit (WAKE_UP w) s'))
             else (None, s'))"

subsection \<open>The lifecycle states encoded in the counter\<close>

text \<open>
  The regions of the counter, as the comment above the bias constants describes them:
  not negative while active, counting the references; from the bias up to \<open>-1\<close> once
  deactivated, still counting the references above the bias; one value each for
  \<open>RELEASE_DIRECT\<close>, \<open>RELEASE\<close>, \<open>DRAINED\<close> and \<open>NEW\<close>; \<open>INT_MIN\<close> is reserved.
\<close>

datatype lifecycle =
    St_NEW
  | St_ACTIVE nat
  | St_DRAINING nat
  | St_RELEASE_DIRECT
  | St_RELEASE
  | St_DRAINED
  | St_RESERVED

definition lifecycle_of :: "s32 \<Rightarrow> lifecycle" where
  "lifecycle_of c =
     (if 0 \<le>s c then St_ACTIVE (nat (sint c))
      else if BUS1_ACTIVE_BIAS \<le>s c then St_DRAINING (nat (sint c - sint BUS1_ACTIVE_BIAS))
      else if c = BUS1_ACTIVE_RELEASE_DIRECT then St_RELEASE_DIRECT
      else if c = BUS1_ACTIVE_RELEASE then St_RELEASE
      else if c = BUS1_ACTIVE_DRAINED then St_DRAINED
      else if c = BUS1_ACTIVE_NEW then St_NEW
      else St_RESERVED)"

section \<open>Calls that interleave\<close>

text \<open>
  The functions above run one call from its first line to its return with nothing in
  between. The counter is shared, so calls of several threads interleave, one atomic
  operation at a time, and a drain sleeps in \<open>wait_event\<close> while other threads go on.
  The machine below runs the same code in such steps: a thread is between calls or at
  a program point of active.c, and a step performs the code up to and including its
  next atomic operation on the counter (what a thread does to its own locals is not
  seen by anybody else).
\<close>

type_synonym tid = nat

datatype call =
    Activate addr
  | Acquire "addr option"
  | Release "addr option" "waitq option"
  | Deactivate addr
  | Drain addr waitq "callback option"

datatype retval = RVoid | RBool bool | RPtr "addr option"

text \<open>
  \<open>wait_event(wq, condition)\<close> is kernel code (linux/wait.h), followed here step by
  step. It tests the condition and is done if it holds (\<open>Test\<close>). Otherwise it repeats:
  it puts the thread on the wait-queue as a non-exclusive waiter (\<open>Enqueue\<close>, the
  call of \<open>prepare_to_wait\<close>), tests the condition again (\<open>Check\<close>) and, if it fails
  again, calls \<open>schedule()\<close> (\<open>Sleep\<close>), where the thread sleeps until it is woken;
  then the loop starts again. \<open>wake_up\<close> and \<open>wake_up_all\<close> on the queue both wake
  every non-exclusive waiter that is on it, also one that has not gone to sleep yet
  (they differ in the number of exclusive waiters they wake, and \<open>wait_event\<close> waits
  non-exclusively). So a thread on the queue keeps the number of wake-ups of the queue
  that the log held when it got on, and it is woken once the log holds more.
\<close>

datatype stage = Test | Enqueue | Check nat | Sleep nat

fun wakes_queue :: "waitq \<Rightarrow> event \<Rightarrow> bool" where
  "wakes_queue w (WAKE_UP q) = (w = q)"
| "wakes_queue w (WAKE_UP_ALL q) = (w = q)"
| "wakes_queue w e = False"

definition wakes :: "waitq \<Rightarrow> event list \<Rightarrow> nat" where
  "wakes w evs = length (filter (wakes_queue w) evs)"

text \<open>One step of \<open>wait_event\<close> at a stage, given the wait-queue, the value of the
  condition now and the log. \<open>None\<close>: the thread is asleep and nothing has woken it;
  \<open>Some None\<close>: the wait is over; \<open>Some (Some st)\<close>: the wait goes on at \<open>st\<close>.\<close>

fun wait_event :: "waitq \<Rightarrow> bool \<Rightarrow> event list \<Rightarrow> stage \<Rightarrow> stage option option" where
  "wait_event w cond evs Test = Some (if cond then None else Some Enqueue)"
| "wait_event w cond evs Enqueue = Some (Some (Check (wakes w evs)))"
| "wait_event w cond evs (Check n) = Some (if cond then None else Some (Sleep n))"
| "wait_event w cond evs (Sleep n) = (if n < wakes w evs then Some (Some Enqueue) else None)"

text \<open>
  The program points, with the arguments and locals that are live there.
  \<^item> \<open>Release_wake\<close>: \<open>bus1_active_release\<close> after \<open>atomic_dec_return\<close> gave the bias
    and \<open>waitq\<close> is not \<open>NULL\<close>, before \<open>wake_up(waitq)\<close>.
  \<^item> \<open>Deactivate_read\<close>: \<open>bus1_active_deactivate\<close> after its \<open>atomic_cmpxchg\<close> did not
    find \<open>NEW\<close>, before the \<open>atomic_read\<close> that starts the loop of
    \<open>bus1_active_add_unless_negative\<close>. \<open>Deactivate_loop\<close>: at the loop test, with \<open>v\<close>.
  \<^item> \<open>Drain_wait\<close>: \<open>bus1_active_drain\<close> in the first \<open>wait_event\<close>, at a stage of
    it; \<open>Drain_cmpxchg1\<close> and \<open>Drain_cmpxchg2\<close>: before the first and the second
    \<open>atomic_cmpxchg\<close>; \<open>Drain_release\<close>, \<open>Drain_set\<close>, \<open>Drain_wake_all\<close>: in the branch
    of the thread that marked the object, before the callback, before \<open>atomic_set\<close>,
    before \<open>wake_up_all\<close>; \<open>Drain_wait_drained\<close>: in the \<open>wait_event\<close> of the other
    branch, at a stage of it. The last four carry \<open>v\<close>, which the return statement
    tests again.
\<close>

datatype pc =
    Idle
  | Returned call retval
  | Release_wake addr waitq
  | Deactivate_read addr
  | Deactivate_loop addr s32
  | Drain_wait addr waitq "callback option" stage
  | Drain_cmpxchg1 addr waitq "callback option"
  | Drain_cmpxchg2 addr waitq "callback option"
  | Drain_release addr waitq "callback option" s32
  | Drain_set addr waitq "callback option" s32
  | Drain_wake_all addr waitq "callback option" s32
  | Drain_wait_drained addr waitq "callback option" s32 stage

text \<open>A thread is at a program point; \<open>did\<close> lists what its current call (or, once
  returned, its last call) has written to the log.\<close>

record thread =
  pc :: pc
  did :: "event list"

text \<open>
  The system: the kernel state, the threads, for each object the number of references
  that callers hold, that is the acquires that succeeded and have not been released,
  and the calls that have returned so far, each with its thread and its return value,
  in the order of their return. \<open>held\<close> and \<open>rets\<close> are bookkeeping about the callers;
  no step reads them.
\<close>

record sys =
  ks :: kstate
  threads :: "tid \<Rightarrow> thread"
  held :: "addr \<Rightarrow> nat"
  rets :: "(tid \<times> call \<times> retval) list"

text \<open>\<open>Spurious t\<close> wakes the sleeping thread \<open>t\<close> although no \<open>wake_up\<close> was called: the
  loop of \<open>wait_event\<close> is there because a sleeper may be woken for other reasons.\<close>

datatype label = Invoke tid call | Resume tid | Spurious tid

fun actor :: "label \<Rightarrow> tid" where
  "actor (Invoke t c) = t"
| "actor (Resume t) = t"
| "actor (Spurious t) = t"

fun returned :: "tid \<Rightarrow> pc \<Rightarrow> (tid \<times> call \<times> retval) list" where
  "returned t (Returned c r) = [(t, c, r)]"
| "returned t p = []"

text \<open>A thread starts a call at \<open>p\<close> with kernel state \<open>k\<close>, or moves on to \<open>p\<close>; in
  both cases \<open>did\<close> takes what the step added to the log, and a return is noted.\<close>

definition enter :: "tid \<Rightarrow> pc \<Rightarrow> kstate \<Rightarrow> sys \<Rightarrow> sys" where
  "enter t p k s =
     s\<lparr>ks := k,
       threads := (threads s)(t := \<lparr>pc = p, did = drop (length (klog (ks s))) (klog k)\<rparr>),
       rets := rets s @ returned t p\<rparr>"

definition goto :: "tid \<Rightarrow> pc \<Rightarrow> kstate \<Rightarrow> sys \<Rightarrow> sys" where
  "goto t p k s =
     s\<lparr>ks := k,
       threads := (threads s)(t := \<lparr>pc = p,
         did = did (threads s t) @ drop (length (klog (ks s))) (klog k)\<rparr>),
       rets := rets s @ returned t p\<rparr>"

text \<open>\<open>v == BUS1_ACTIVE_BIAS || v == BUS1_ACTIVE_RELEASE_DIRECT\<close>, the test of the branch
  and of the return statement of \<open>bus1_active_drain\<close>.\<close>

definition drained_by :: "s32 \<Rightarrow> bool" where
  "drained_by v = (v = BUS1_ACTIVE_BIAS \<or> v = BUS1_ACTIVE_RELEASE_DIRECT)"

text \<open>A thread between calls enters a call and runs it up to its first atomic
  operation; the calls that have only one return at once.\<close>

fun invoke :: "tid \<Rightarrow> call \<Rightarrow> sys \<Rightarrow> sys option" where
  "invoke t (Activate a) s =
     (case atomic_cmpxchg a BUS1_ACTIVE_NEW 0 (ks s) of
        (v, k) \<Rightarrow> Some (enter t (Returned (Activate a) (RBool (v = BUS1_ACTIVE_NEW))) k s))"
| "invoke t (Acquire None) s = Some (enter t (Returned (Acquire None) (RPtr None)) (ks s) s)"
| "invoke t (Acquire (Some a)) s =
     (case atomic_inc_unless_negative a (ks s) of
        (res, k) \<Rightarrow>
          Some (enter t (Returned (Acquire (Some a)) (RPtr (if res then Some a else None))) k
                 (if res then s\<lparr>held := (held s)(a := Suc (held s a))\<rparr> else s)))"
| "invoke t (Release None w) s = Some (enter t (Returned (Release None w) (RPtr None)) (ks s) s)"
| "invoke t (Release (Some a) w) s =
     (case atomic_dec_return a (ks s) of
        (v, k) \<Rightarrow>
          Some (enter t
                 (if v = BUS1_ACTIVE_BIAS
                  then (case w of
                          None \<Rightarrow> Returned (Release (Some a) w) (RPtr None)
                        | Some q \<Rightarrow> Release_wake a q)
                  else Returned (Release (Some a) w) (RPtr None))
                 k (s\<lparr>held := (held s)(a := held s a - 1)\<rparr>)))"
| "invoke t (Deactivate a) s =
     (case atomic_cmpxchg a BUS1_ACTIVE_NEW BUS1_ACTIVE_RELEASE_DIRECT (ks s) of
        (v, k) \<Rightarrow>
          Some (enter t (if v \<noteq> BUS1_ACTIVE_NEW then Deactivate_read a
                         else Returned (Deactivate a) RVoid) k s))"
| "invoke t (Drain a w f) s =
     (if \<not> bus1_active_is_deactivated a (ks s)
      then Some (enter t (Returned (Drain a w f) (RBool False)) (emit WARN (ks s)) s)
      else Some (enter t (Drain_wait a w f Test) (ks s) s))"

text \<open>A thread inside a call takes its next step. \<open>None\<close>: it cannot move now, being
  between calls or asleep in a \<open>wait_event\<close> with no wake-up since it got on the
  queue.\<close>

fun resume :: "tid \<Rightarrow> pc \<Rightarrow> sys \<Rightarrow> sys option" where
  "resume t Idle s = None"
| "resume t (Returned c r) s = None"
| "resume t (Release_wake a q) s =
     Some (goto t (Returned (Release (Some a) (Some q)) (RPtr None)) (emit (WAKE_UP q) (ks s)) s)"
| "resume t (Deactivate_read a) s =
     Some (goto t (Deactivate_loop a (atomic_read a (ks s))) (ks s) s)"
| "resume t (Deactivate_loop a v) s =
     (if 0 \<le>s v then
        (case atomic_cmpxchg a v (v + BUS1_ACTIVE_BIAS) (ks s) of
           (v1, k) \<Rightarrow>
             Some (goto t (if v1 = v then Returned (Deactivate a) RVoid
                           else Deactivate_loop a v1) k s))
      else Some (goto t (Returned (Deactivate a) RVoid) (ks s) s))"
| "resume t (Drain_wait a w f st) s =
     (case wait_event w (atomic_read a (ks s) \<le>s BUS1_ACTIVE_BIAS) (klog (ks s)) st of
        None \<Rightarrow> None
      | Some None \<Rightarrow> Some (goto t (Drain_cmpxchg1 a w f) (ks s) s)
      | Some (Some st') \<Rightarrow> Some (goto t (Drain_wait a w f st') (ks s) s))"
| "resume t (Drain_cmpxchg1 a w f) s =
     (case atomic_cmpxchg a BUS1_ACTIVE_RELEASE_DIRECT BUS1_ACTIVE_RELEASE (ks s) of
        (v, k) \<Rightarrow>
          Some (goto t (if v \<noteq> BUS1_ACTIVE_RELEASE_DIRECT then Drain_cmpxchg2 a w f
                        else if drained_by v then Drain_release a w f v
                        else Drain_wait_drained a w f v Test) k s))"
| "resume t (Drain_cmpxchg2 a w f) s =
     (case atomic_cmpxchg a BUS1_ACTIVE_BIAS BUS1_ACTIVE_RELEASE (ks s) of
        (v, k) \<Rightarrow>
          Some (goto t (if drained_by v then Drain_release a w f v
                        else Drain_wait_drained a w f v Test) k s))"
| "resume t (Drain_release a w f v) s =
     Some (goto t (Drain_set a w f v)
            (case f of None \<Rightarrow> ks s | Some g \<Rightarrow> emit (CALL g a) (ks s)) s)"
| "resume t (Drain_set a w f v) s =
     Some (goto t (Drain_wake_all a w f v) (atomic_set a BUS1_ACTIVE_DRAINED (ks s)) s)"
| "resume t (Drain_wake_all a w f v) s =
     Some (goto t (Returned (Drain a w f) (RBool (drained_by v)))
            (emit (WAKE_UP_ALL w) (ks s)) s)"
| "resume t (Drain_wait_drained a w f v st) s =
     (case wait_event w (atomic_read a (ks s) = BUS1_ACTIVE_DRAINED) (klog (ks s)) st of
        None \<Rightarrow> None
      | Some None \<Rightarrow> Some (goto t (Returned (Drain a w f) (RBool (drained_by v))) (ks s) s)
      | Some (Some st') \<Rightarrow> Some (goto t (Drain_wait_drained a w f v st') (ks s) s))"

text \<open>A thread asleep in \<open>schedule()\<close> wakes without a wake-up and starts the loop of
  its \<open>wait_event\<close> again.\<close>

fun spurious :: "tid \<Rightarrow> pc \<Rightarrow> sys \<Rightarrow> sys option" where
  "spurious t (Drain_wait a w f (Sleep n)) s =
     Some (goto t (Drain_wait a w f Enqueue) (ks s) s)"
| "spurious t (Drain_wait_drained a w f v (Sleep n)) s =
     Some (goto t (Drain_wait_drained a w f v Enqueue) (ks s) s)"
| "spurious t p s = None"

fun between_calls :: "pc \<Rightarrow> bool" where
  "between_calls Idle = True"
| "between_calls (Returned c r) = True"
| "between_calls p = False"

fun step :: "label \<Rightarrow> sys \<Rightarrow> sys option" where
  "step (Invoke t c) s = (if between_calls (pc (threads s t)) then invoke t c s else None)"
| "step (Resume t) s = resume t (pc (threads s t)) s"
| "step (Spurious t) s = spurious t (pc (threads s t)) s"

text \<open>A schedule is a list of labels. \<open>run\<close> is the state after all of it, if every
  label could be taken; \<open>visited\<close> lists the states passed, up to the first label that
  could not.\<close>

fun run :: "label list \<Rightarrow> sys \<Rightarrow> sys option" where
  "run [] s = Some s"
| "run (l # ls) s = (case step l s of None \<Rightarrow> None | Some s' \<Rightarrow> run ls s')"

fun visited :: "label list \<Rightarrow> sys \<Rightarrow> sys list" where
  "visited [] s = [s]"
| "visited (l # ls) s = s # (case step l s of None \<Rightarrow> [] | Some s' \<Rightarrow> visited ls s')"

text \<open>A kernel state with every thread idle, no reference held and no call returned;
  and the object at \<open>a\<close> right after \<open>bus1_active_init\<close> in such a system.\<close>

definition quiet :: "kstate \<Rightarrow> sys" where
  "quiet k =
     \<lparr>ks = k, threads = (\<lambda>t. \<lparr>pc = Idle, did = []\<rparr>), held = (\<lambda>b. 0), rets = []\<rparr>"

definition boot :: "addr \<Rightarrow> kstate \<Rightarrow> sys" where
  "boot a k = quiet (bus1_active_init a k)"

text \<open>Each release gives back a reference that is held: a release on an object is
  invoked only while \<open>held\<close> is positive there.\<close>

fun releasable :: "label \<Rightarrow> sys \<Rightarrow> bool" where
  "releasable (Invoke t (Release (Some a) w)) s = (0 < held s a)"
| "releasable l s = True"

fun balanced :: "label list \<Rightarrow> sys \<Rightarrow> bool" where
  "balanced [] s = True"
| "balanced (l # ls) s =
     (releasable l s \<and> (case step l s of None \<Rightarrow> True | Some s' \<Rightarrow> balanced ls s'))"

text \<open>
  The wait-queue linked to an object: \<open>bus1_active_drain\<close> sleeps on the wait-queue it
  is passed, and by its comment that "must be the same wait-queue that is used when
  calling \<open>bus1_active_release()\<close>"; a sleeping drain is woken by nothing else. A call
  keeps to the queue \<open>w\<close> of the object at \<open>a\<close> if it is not a release or drain on
  \<open>a\<close>, or passes \<open>w\<close>.
\<close>

fun uses :: "addr \<Rightarrow> waitq \<Rightarrow> label \<Rightarrow> bool" where
  "uses a w (Invoke t (Release (Some b) q)) = (a = b \<longrightarrow> q = Some w)"
| "uses a w (Invoke t (Drain b q f)) = (a = b \<longrightarrow> q = w)"
| "uses a w l = True"

text \<open>
  One thread on its own: it invokes a call and resumes until it has returned; eight
  further steps are enough for every path through the code. \<open>None\<close>: the thread is
  asleep in a \<open>wait_event\<close> and nobody else is there to wake it.
\<close>

fun finish :: "nat \<Rightarrow> tid \<Rightarrow> sys \<Rightarrow> sys option" where
  "finish 0 t s = (if between_calls (pc (threads s t)) then Some s else None)"
| "finish (Suc n) t s =
     (if between_calls (pc (threads s t)) then Some s
      else case step (Resume t) s of None \<Rightarrow> None | Some s' \<Rightarrow> finish n t s')"

definition alone :: "tid \<Rightarrow> call \<Rightarrow> sys \<Rightarrow> (pc \<times> kstate) option" where
  "alone t c s =
     (case step (Invoke t c) s of
        None \<Rightarrow> None
      | Some s' \<Rightarrow> map_option (\<lambda>x. (pc (threads x t), ks x)) (finish 8 t s'))"

subsection \<open>The transition graph of the lifecycle\<close>

text \<open>
  The edges of the graph \<open>NEW \<rightarrow> {ACTIVE \<rightarrow> DRAINING \<rightarrow> RELEASE} or {RELEASE_DIRECT} \<rightarrow>
  RELEASE \<rightarrow> DRAINED\<close>, with the reference counts where a state has one; staying in a
  state is allowed. \<open>rank\<close> numbers the states along the graph.
\<close>

fun lifecycle_edge :: "lifecycle \<Rightarrow> lifecycle \<Rightarrow> bool" where
  "lifecycle_edge St_NEW (St_ACTIVE k) = (k = 0)"
| "lifecycle_edge (St_ACTIVE j) (St_ACTIVE k) = (k = Suc j \<or> j = Suc k \<or> j = k)"
| "lifecycle_edge (St_ACTIVE j) (St_DRAINING k) = (j = k)"
| "lifecycle_edge (St_DRAINING j) (St_DRAINING k) = (j = Suc k \<or> j = k)"
| "lifecycle_edge (St_DRAINING j) St_RELEASE = (j = 0)"
| "lifecycle_edge St_NEW St_RELEASE_DIRECT = True"
| "lifecycle_edge St_RELEASE_DIRECT St_RELEASE = True"
| "lifecycle_edge St_RELEASE St_DRAINED = True"
| "lifecycle_edge x y = (x = y)"

fun rank :: "lifecycle \<Rightarrow> nat" where
  "rank St_NEW = 0"
| "rank (St_ACTIVE k) = 1"
| "rank (St_DRAINING k) = 2"
| "rank St_RELEASE_DIRECT = 3"
| "rank St_RELEASE = 4"
| "rank St_DRAINED = 5"
| "rank St_RESERVED = 6"

fun follows_edges :: "lifecycle list \<Rightarrow> bool" where
  "follows_edges (x # y # ys) = (lifecycle_edge x y \<and> follows_edges (y # ys))"
| "follows_edges xs = True"

text \<open>No element comes back once the list has moved on to another one.\<close>

fun never_revisits :: "nat list \<Rightarrow> bool" where
  "never_revisits [] = True"
| "never_revisits (x # xs) = (x \<notin> set (dropWhile (\<lambda>y. y = x) xs) \<and> never_revisits xs)"

definition trajectory :: "addr \<Rightarrow> label list \<Rightarrow> sys \<Rightarrow> lifecycle list" where
  "trajectory a ls s = map (\<lambda>x. lifecycle_of (mem (ks x) a)) (visited ls s)"


subsection \<open>What holds of every state the machine reaches\<close>

text \<open>The counter of the object at \<open>a\<close> counts the held references: it is their number
  while active, the bias plus their number while draining, and below the bias nothing
  is held. The number stays below \<open>2 ^ 31 - 5\<close>, the negated bias.\<close>

definition counted :: "addr \<Rightarrow> sys \<Rightarrow> bool" where
  "counted a s =
     (let c = sint (mem (ks s) a); n = int (held s a)
      in n < 2147483643 \<and>
         (if 0 \<le> c then c = n
          else if - 2147483643 \<le> c then c = n - 2147483643
          else n = 0 \<and> - 2147483647 \<le> c))"

text \<open>The threads that have marked the object at \<open>a\<close> as \<open>RELEASE\<close> and not yet stored
  \<open>DRAINED\<close>: there is at most one, and while there is one the counter is \<open>RELEASE\<close>.\<close>

fun winner_on :: "addr \<Rightarrow> pc \<Rightarrow> bool" where
  "winner_on a (Drain_release b w f v) = (a = b)"
| "winner_on a (Drain_set b w f v) = (a = b)"
| "winner_on a p = False"

definition single_winner :: "addr \<Rightarrow> sys \<Rightarrow> bool" where
  "single_winner a s =
     ((\<forall>t. winner_on a (pc (threads s t)) \<longrightarrow> mem (ks s) a = BUS1_ACTIVE_RELEASE) \<and>
      (\<forall>t u. winner_on a (pc (threads s t)) \<and> winner_on a (pc (threads s u)) \<longrightarrow> t = u))"

text \<open>The object at \<open>a\<close> has been marked: its counter is \<open>RELEASE\<close> or \<open>DRAINED\<close>.\<close>

definition released :: "s32 \<Rightarrow> bool" where
  "released c = (c = BUS1_ACTIVE_RELEASE \<or> c = BUS1_ACTIVE_DRAINED)"

text \<open>What a thread on its way through drain knows of the counter \<open>c\<close> of its object: it
  is negative and no longer \<open>NEW\<close>; after the first wait it is at most the bias; before
  the second \<open>atomic_cmpxchg\<close> it is not \<open>RELEASE_DIRECT\<close> either; and in the second
  wait the object has been marked.\<close>

fun drain_knows :: "addr \<Rightarrow> s32 \<Rightarrow> pc \<Rightarrow> bool" where
  "drain_knows a c (Drain_wait b w f st) = (a = b \<longrightarrow> c \<noteq> BUS1_ACTIVE_NEW \<and> c <s 0)"
| "drain_knows a c (Drain_cmpxchg1 b w f) =
     (a = b \<longrightarrow> c \<noteq> BUS1_ACTIVE_NEW \<and> c \<le>s BUS1_ACTIVE_BIAS)"
| "drain_knows a c (Drain_cmpxchg2 b w f) =
     (a = b \<longrightarrow> c \<noteq> BUS1_ACTIVE_NEW \<and> c \<noteq> BUS1_ACTIVE_RELEASE_DIRECT \<and>
        c \<le>s BUS1_ACTIVE_BIAS)"
| "drain_knows a c (Drain_wait_drained b w f v st) = (a = b \<longrightarrow> released c)"
| "drain_knows a c p = True"

definition knows :: "addr \<Rightarrow> sys \<Rightarrow> bool" where
  "knows a s = (\<forall>t. drain_knows a (mem (ks s) a) (pc (threads s t)))"

definition consistent :: "addr \<Rightarrow> sys \<Rightarrow> bool" where
  "consistent a s = (counted a s \<and> single_winner a s \<and> knows a s)"

text \<open>The changes of the counter of one object that a step can make.\<close>

definition counter_move :: "s32 \<Rightarrow> s32 \<Rightarrow> bool" where
  "counter_move c c' =
     (c' = c \<or>
      c = BUS1_ACTIVE_NEW \<and> c' = 0 \<or>
      c = BUS1_ACTIVE_NEW \<and> c' = BUS1_ACTIVE_RELEASE_DIRECT \<or>
      0 \<le> sint c \<and> sint c < 2147483642 \<and> c' = c + 1 \<or>
      (0 < sint c \<or> - 2147483643 < sint c \<and> sint c < 0) \<and> c' = c - 1 \<or>
      0 \<le> sint c \<and> sint c < 2147483643 \<and> c' = c + BUS1_ACTIVE_BIAS \<or>
      c = BUS1_ACTIVE_RELEASE_DIRECT \<and> c' = BUS1_ACTIVE_RELEASE \<or>
      c = BUS1_ACTIVE_BIAS \<and> c' = BUS1_ACTIVE_RELEASE \<or>
      c = BUS1_ACTIVE_RELEASE \<and> c' = BUS1_ACTIVE_DRAINED)"

text \<open>
  The course of one drain call, told by what the call has written so far and by the
  counter \<open>c\<close> of its object. The thread that marks the object has written the store
  of \<open>RELEASE\<close>, then the callback if it was given one, then the store of \<open>DRAINED\<close>,
  then the wake of all waiters, and returns true, with the counter at \<open>DRAINED\<close>. A
  thread that did not mark it writes nothing at all and returns false, which it does
  only when the counter is \<open>DRAINED\<close>. A drain that came before the deactivation has
  written the report and nothing else, and has returned false at once.
\<close>

fun callback_events :: "callback option \<Rightarrow> addr \<Rightarrow> event list" where
  "callback_events None a = []"
| "callback_events (Some g) a = [CALL g a]"

fun script :: "s32 \<Rightarrow> pc \<Rightarrow> event list \<Rightarrow> bool" where
  "script c (Returned (Drain a w f) (RBool r)) d =
     (if r
      then d = STORE a BUS1_ACTIVE_RELEASE # callback_events f a @
                 [STORE a BUS1_ACTIVE_DRAINED, WAKE_UP_ALL w] \<and> c = BUS1_ACTIVE_DRAINED
      else d = [WARN] \<or> d = [] \<and> c = BUS1_ACTIVE_DRAINED)"
| "script c (Drain_wait a w f st) d = (d = [])"
| "script c (Drain_cmpxchg1 a w f) d = (d = [])"
| "script c (Drain_cmpxchg2 a w f) d = (d = [])"
| "script c (Drain_release a w f v) d = (drained_by v \<and> d = [STORE a BUS1_ACTIVE_RELEASE])"
| "script c (Drain_set a w f v) d =
     (drained_by v \<and> d = STORE a BUS1_ACTIVE_RELEASE # callback_events f a)"
| "script c (Drain_wake_all a w f v) d =
     (drained_by v \<and>
      d = STORE a BUS1_ACTIVE_RELEASE # callback_events f a @ [STORE a BUS1_ACTIVE_DRAINED] \<and>
      c = BUS1_ACTIVE_DRAINED)"
| "script c (Drain_wait_drained a w f v st) d = (\<not> drained_by v \<and> d = [])"
| "script c p d = True"

text \<open>The object a drain call works on, for a thread inside such a call
  (\<open>inside\<close>) or inside it or returned from it (\<open>draining\<close>).\<close>

fun draining :: "pc \<Rightarrow> addr option" where
  "draining (Returned (Drain a w f) r) = Some a"
| "draining (Drain_wait a w f st) = Some a"
| "draining (Drain_cmpxchg1 a w f) = Some a"
| "draining (Drain_cmpxchg2 a w f) = Some a"
| "draining (Drain_release a w f v) = Some a"
| "draining (Drain_set a w f v) = Some a"
| "draining (Drain_wake_all a w f v) = Some a"
| "draining (Drain_wait_drained a w f v st) = Some a"
| "draining p = None"

definition inside :: "addr \<Rightarrow> pc \<Rightarrow> bool" where
  "inside a p = (draining p = Some a \<and> \<not> between_calls p)"

definition scripted :: "addr \<Rightarrow> sys \<Rightarrow> bool" where
  "scripted a s =
     (\<forall>t. draining (pc (threads s t)) = Some a \<longrightarrow>
        script (mem (ks s) a) (pc (threads s t)) (did (threads s t)))"

text \<open>The entries of the log that mark the release of the object at \<open>a\<close>: the stores of
  \<open>RELEASE\<close> to its counter and the calls of a release callback on it.\<close>

fun marks_release :: "addr \<Rightarrow> event \<Rightarrow> bool" where
  "marks_release a (STORE b v) = (a = b \<and> v = BUS1_ACTIVE_RELEASE)"
| "marks_release a (CALL g b) = (a = b)"
| "marks_release a e = False"

definition marks :: "addr \<Rightarrow> sys \<Rightarrow> event list" where
  "marks a s = filter (marks_release a) (klog (ks s))"

text \<open>Before the object is marked there is no such entry. From then on there is the
  one store of \<open>RELEASE\<close>, followed by at most one call of a callback, which has not
  been made yet while the marking thread is still before it.\<close>

definition released_once :: "addr \<Rightarrow> sys \<Rightarrow> bool" where
  "released_once a s =
     (if released (mem (ks s) a)
      then (marks a s = [STORE a BUS1_ACTIVE_RELEASE] \<or>
            (\<exists>g. marks a s = [STORE a BUS1_ACTIVE_RELEASE, CALL g a])) \<and>
           (\<forall>t w f v. pc (threads s t) = Drain_release a w f v \<longrightarrow>
              marks a s = [STORE a BUS1_ACTIVE_RELEASE])
      else marks a s = [])"

text \<open>While the counter of the object at \<open>a\<close> is \<open>RELEASE\<close>, the thread that marked it
  is still on its way to store \<open>DRAINED\<close>.\<close>

definition marked :: "addr \<Rightarrow> sys \<Rightarrow> bool" where
  "marked a s =
     (mem (ks s) a = BUS1_ACTIVE_RELEASE \<longrightarrow> (\<exists>t. winner_on a (pc (threads s t))))"

text \<open>
  Who returns true. A thread is in the branch of the thread that marked the object
  from its successful \<open>atomic_cmpxchg\<close> to its return. Before the object is marked,
  nobody is in that branch and no drain on the object has returned true. Once it is
  marked, exactly one thread is the one that marked it: either it is still in the
  branch and no drain has returned true yet, or nobody is in the branch and exactly
  one drain has returned true.
\<close>

fun marking :: "addr \<Rightarrow> pc \<Rightarrow> bool" where
  "marking a (Drain_release b w f v) = (a = b)"
| "marking a (Drain_set b w f v) = (a = b)"
| "marking a (Drain_wake_all b w f v) = (a = b)"
| "marking a p = False"

fun returned_true :: "addr \<Rightarrow> tid \<times> call \<times> retval \<Rightarrow> bool" where
  "returned_true a (t, Drain b w f, RBool r) = (a = b \<and> r)"
| "returned_true a x = False"

definition trues :: "addr \<Rightarrow> sys \<Rightarrow> nat" where
  "trues a s = length (filter (returned_true a) (rets s))"

definition tally :: "addr \<Rightarrow> sys \<Rightarrow> bool" where
  "tally a s =
     ((\<forall>t u. marking a (pc (threads s t)) \<and> marking a (pc (threads s u)) \<longrightarrow> t = u) \<and>
      (if released (mem (ks s) a)
       then (\<exists>t. marking a (pc (threads s t))) \<and> trues a s = 0 \<or>
            (\<forall>t. \<not> marking a (pc (threads s t))) \<and> trues a s = 1
       else (\<forall>t. \<not> marking a (pc (threads s t))) \<and> trues a s = 0))"

text \<open>What holds of the object at \<open>a\<close> whatever wait-queues the calls pass.\<close>

definition sound :: "addr \<Rightarrow> sys \<Rightarrow> bool" where
  "sound a s =
     (consistent a s \<and> scripted a s \<and> released_once a s \<and> marked a s \<and> tally a s)"

text \<open>Deactivation has taken effect on the object at \<open>a\<close> and no reference to it is
  held any more.\<close>

definition settled :: "addr \<Rightarrow> sys \<Rightarrow> bool" where
  "settled a s =
     (held s a = 0 \<and>
      (mem (ks s) a = BUS1_ACTIVE_BIAS \<or> mem (ks s) a = BUS1_ACTIVE_RELEASE_DIRECT \<or>
       released (mem (ks s) a)))"

text \<open>
  No wake-up is lost, when every call on the object at \<open>a\<close> keeps to its wait-queue
  \<open>w\<close>. Of a thread at \<open>p\<close>, given the counter \<open>c\<close>, the number \<open>k\<close> of wake-ups of \<open>w\<close> in
  the log, whether some thread is about to call \<open>wake_up(w)\<close> in a release on the
  object (\<open>p1\<close>) and whether some thread is about to call \<open>wake_up_all(w)\<close> in a drain
  on it (\<open>p2\<close>): its wait-queue is \<open>w\<close>; the number it took when it got on the queue is
  at most \<open>k\<close>; and if it sleeps while the condition of its wait holds, then a wake-up
  has come since it got on the queue, or one is about to come.
\<close>

fun rested :: "addr \<Rightarrow> waitq \<Rightarrow> s32 \<Rightarrow> nat \<Rightarrow> bool \<Rightarrow> bool \<Rightarrow> pc \<Rightarrow> bool" where
  "rested a w c k p1 p2 (Release_wake b q) = (a = b \<longrightarrow> q = w)"
| "rested a w c k p1 p2 (Drain_wait b q f st) =
     (a = b \<longrightarrow> q = w \<and>
        (case st of
           Check n \<Rightarrow> n \<le> k
         | Sleep n \<Rightarrow> n \<le> k \<and> (c \<le>s BUS1_ACTIVE_BIAS \<longrightarrow> n < k \<or> p1)
         | _ \<Rightarrow> True))"
| "rested a w c k p1 p2 (Drain_cmpxchg1 b q f) = (a = b \<longrightarrow> q = w)"
| "rested a w c k p1 p2 (Drain_cmpxchg2 b q f) = (a = b \<longrightarrow> q = w)"
| "rested a w c k p1 p2 (Drain_release b q f v) = (a = b \<longrightarrow> q = w)"
| "rested a w c k p1 p2 (Drain_set b q f v) = (a = b \<longrightarrow> q = w)"
| "rested a w c k p1 p2 (Drain_wake_all b q f v) = (a = b \<longrightarrow> q = w)"
| "rested a w c k p1 p2 (Drain_wait_drained b q f v st) =
     (a = b \<longrightarrow> q = w \<and>
        (case st of
           Check n \<Rightarrow> n \<le> k
         | Sleep n \<Rightarrow> n \<le> k \<and> (c = BUS1_ACTIVE_DRAINED \<longrightarrow> n < k \<or> p2)
         | _ \<Rightarrow> True))"
| "rested a w c k p1 p2 p = True"

definition waking :: "addr \<Rightarrow> waitq \<Rightarrow> sys \<Rightarrow> bool" where
  "waking a w s = (\<exists>t. pc (threads s t) = Release_wake a w)"

definition waking_all :: "addr \<Rightarrow> waitq \<Rightarrow> sys \<Rightarrow> bool" where
  "waking_all a w s = (\<exists>t f v. pc (threads s t) = Drain_wake_all a w f v)"

definition awake :: "addr \<Rightarrow> waitq \<Rightarrow> sys \<Rightarrow> bool" where
  "awake a w s =
     (\<forall>t. rested a w (mem (ks s) a) (wakes w (klog (ks s))) (waking a w s) (waking_all a w s)
        (pc (threads s t)))"

text \<open>All of the above, on an object all of whose references are released.\<close>

definition steady :: "addr \<Rightarrow> waitq \<Rightarrow> sys \<Rightarrow> bool" where
  "steady a w s = (sound a s \<and> settled a s \<and> awake a w s)"

text \<open>
  The threads that are inside a call go on, no new call is made and no sleeper wakes
  without a wake-up, and so thread \<open>t\<close> comes to the return of its drain on the
  object at \<open>a\<close>, without a report, and the counter of the object is at \<open>DRAINED\<close>
  then. \<open>ts\<close> lists the threads in the order in which they take their steps.
\<close>

definition can_return :: "addr \<Rightarrow> tid \<Rightarrow> sys \<Rightarrow> bool" where
  "can_return a t s =
     (\<exists>ts. case run (map Resume ts) s of
             None \<Rightarrow> False
           | Some s' \<Rightarrow> (\<exists>q f r. pc (threads s' t) = Returned (Drain a q f) (RBool r)) \<and>
                        WARN \<notin> set (did (threads s' t)) \<and>
                        mem (ks s') a = BUS1_ACTIVE_DRAINED)"

text \<open>Thread \<open>t\<close> calls drain on the object at \<open>a\<close> now: the call gets into the first
  wait, having written nothing, and from there it can return.\<close>

definition can_drain :: "addr \<Rightarrow> waitq \<Rightarrow> callback option \<Rightarrow> tid \<Rightarrow> sys \<Rightarrow> bool" where
  "can_drain a w f t s =
     (case step (Invoke t (Drain a w f)) s of
        None \<Rightarrow> False
      | Some s' \<Rightarrow> pc (threads s' t) = Drain_wait a w f Test \<and> did (threads s' t) = [] \<and>
                   can_return a t s')"

section \<open>Facts about the queue clock and the node predicates\<close>

lemma tick_clock: "clock (snd (bus1_queue_tick queue)) = clock queue + 2"
  by (simp add: bus1_queue_tick_def Let_def)

lemma sync_clock: "clock (snd (snd (bus1_queue_sync queue t))) = max (clock queue) t"
  by (simp add: bus1_queue_sync_def Let_def)

lemma tick_grows: "tick_fits queue \<Longrightarrow> clock queue < clock (snd (bus1_queue_tick queue))"
  by (simp add: tick_fits_def tick_clock word_less_nat_alt word_le_nat_alt unat_word_ariths)

lemma tick_unat:
  "tick_fits queue \<Longrightarrow> unat (clock (snd (bus1_queue_tick queue))) = unat (clock queue) + 2"
  by (simp add: tick_fits_def tick_clock word_le_nat_alt unat_word_ariths)

lemma clock_run_mono: "ticks_fit xs queue \<Longrightarrow> clock queue \<le> clock (clock_run xs queue)"
proof (induction xs arbitrary: queue)
  case Nil
  then show ?case by simp
next
  case (Cons x xs)
  have "clock queue \<le> clock (clock_step x queue)"
    using Cons.prems by (cases x) (auto simp: sync_clock dest: tick_grows)
  moreover have "clock (clock_step x queue) \<le> clock (clock_run xs (clock_step x queue))"
    using Cons.prems by (cases x) (auto intro: Cons.IH)
  ultimately show ?case by simp
qed

lemma clock_run_even:
  "even (clock queue) \<Longrightarrow> syncs_even xs \<Longrightarrow> even (clock (clock_run xs queue))"
proof (induction xs arbitrary: queue)
  case Nil
  then show ?case by simp
next
  case (Cons x xs)
  then show ?case by (cases x) (auto simp: tick_clock sync_clock max_def)
qed

lemma type_mask_low_bit: "NOT BUS1_QUEUE_TYPE_MASK AND 1 = 1"
  by (simp add: BUS1_QUEUE_TYPE_MASK_def BUS1_QUEUE_TYPE_SHIFT_def)

lemma timestamp_low_bit:
  "bus1_queue_node_get_timestamp node AND 1 = timestamp_and_type node AND 1"
  unfolding bus1_queue_node_get_timestamp_def by (simp add: and.assoc type_mask_low_bit)

lemma is_staging_low_bit:
  "bus1_queue_node_is_staging node \<longleftrightarrow> bus1_queue_node_get_timestamp node AND 1 = 1"
  by (simp add: bus1_queue_node_is_staging_def and_one_eq)

section \<open>The claims about the queue\<close>

text \<open>
  C6, as the source has it. The clock is a \<open>u64\<close> and \<open>clock += 2\<close> wraps: after
  \<open>sync(2 ^ 64 - 2)\<close>, an even timestamp, one tick takes the clock from \<open>2 ^ 64 - 2\<close>
  back to 0, so the clock is not non-decreasing across every tick.
\<close>

theorem C6_tick_wraps_counterexample:
  "\<not> clock (clock_run [Sync 0xFFFFFFFFFFFFFFFE] \<lparr>clock = 0, front = None, messages = None\<rparr>)
     \<le> clock (clock_run [Sync 0xFFFFFFFFFFFFFFFE, Tick] \<lparr>clock = 0, front = None, messages = None\<rparr>)"
  by (simp add: bus1_queue_tick_def bus1_queue_sync_def Let_def)

text \<open>
  C6, amended. Across any run of tick and sync operations in which every tick is made at
  a clock of at most \<open>2 ^ 64 - 3\<close>, the clock never decreases; and from an even clock,
  with every sync given an even timestamp, the clock is even after the run, wrapped
  ticks included. The statement holds from every queue, so it covers each single
  operation of a run as well as the whole run.
\<close>

theorem C6_clock_monotone_and_even:
  "(ticks_fit xs queue \<longrightarrow> clock queue \<le> clock (clock_run xs queue)) \<and>
   (even (clock queue) \<and> syncs_even xs \<longrightarrow> even (clock (clock_run xs queue)))"
  by (simp add: clock_run_mono clock_run_even)

theorem C6_clock_monotone_and_even_witness:
  "ticks_fit [Tick, Sync 10, Tick, Sync 4] \<lparr>clock = 0, front = None, messages = None\<rparr> \<and>
   even (clock \<lparr>clock = 0, front = None, messages = None\<rparr>) \<and>
   syncs_even [Tick, Sync 10, Tick, Sync 4] \<and>
   clock (clock_run [Tick, Sync 10, Tick, Sync 4] \<lparr>clock = 0, front = None, messages = None\<rparr>) = 12"
  using C6_clock_monotone_and_even
    [of "[Tick, Sync 10, Tick, Sync 4]" "\<lparr>clock = 0, front = None, messages = None\<rparr>"]
  by (simp add: bus1_queue_tick_def bus1_queue_sync_def Let_def tick_fits_def)

text \<open>
  C7. A tick adds 2 to the clock, in the \<open>u64\<close> arithmetic of the source, and returns
  the new clock, leaving the rest of the queue alone; below the wrap this is an increase
  of the clock's value by exactly 2. A sync with an even timestamp reports nothing, sets
  the clock to the maximum of the clock and the timestamp and returns it. A second
  sync with the same timestamp changes nothing.
\<close>

theorem C7_tick_and_sync:
  "bus1_queue_tick queue = (clock queue + 2, queue\<lparr>clock := clock queue + 2\<rparr>) \<and>
   (tick_fits queue \<longrightarrow> unat (fst (bus1_queue_tick queue)) = unat (clock queue) + 2) \<and>
   (even t \<longrightarrow> bus1_queue_sync queue t =
      (False, max (clock queue) t, queue\<lparr>clock := max (clock queue) t\<rparr>)) \<and>
   snd (snd (bus1_queue_sync (snd (snd (bus1_queue_sync queue t))) t)) =
     snd (snd (bus1_queue_sync queue t))"
proof -
  have "fst (bus1_queue_tick queue) = clock (snd (bus1_queue_tick queue))"
    by (simp add: bus1_queue_tick_def Let_def)
  then have "tick_fits queue \<Longrightarrow> unat (fst (bus1_queue_tick queue)) = unat (clock queue) + 2"
    by (simp add: tick_unat)
  moreover have "even t \<Longrightarrow> t AND 1 = 0"
    by (simp add: and_one_eq even_iff_mod_2_eq_zero)
  ultimately show ?thesis
    by (simp add: bus1_queue_tick_def bus1_queue_sync_def Let_def)
qed

theorem C7_tick_and_sync_witness:
  "tick_fits \<lparr>clock = 6, front = None, messages = None\<rparr> \<and> even (10 :: u64) \<and>
   bus1_queue_tick \<lparr>clock = 6, front = None, messages = None\<rparr> =
     (8, \<lparr>clock = 8, front = None, messages = None\<rparr>) \<and>
   bus1_queue_sync \<lparr>clock = 6, front = None, messages = None\<rparr> 10 =
     (False, 10, \<lparr>clock = 10, front = None, messages = None\<rparr>)"
  using C7_tick_and_sync [of "\<lparr>clock = 6, front = None, messages = None\<rparr>" 10]
  by (simp add: tick_fits_def)

text \<open>
  C8. The claim asks for "queued and low timestamp bit set"; the function looks at the
  timestamp alone. A node whose tree link is detached and whose timestamp is the odd
  value 1 (a staged entry after its removal from the tree, which leaves the timestamp in
  place) is reported as staging although it is not queued.
\<close>

theorem C8_is_staging_ignores_linkage:
  "bus1_queue_node_is_staging \<lparr>rb_empty = True, ref = 1, sender = 0, timestamp_and_type = 1\<rparr> \<and>
   \<not> bus1_queue_node_is_queued \<lparr>rb_empty = True, ref = 1, sender = 0, timestamp_and_type = 1\<rparr>"
  by (simp add: bus1_queue_node_is_staging_def bus1_queue_node_get_timestamp_def
      bus1_queue_node_is_queued_def BUS1_QUEUE_TYPE_MASK_def BUS1_QUEUE_TYPE_SHIFT_def)

section \<open>Facts about the active-reference functions\<close>

lemmas active_consts = INT_MIN_def BUS1_ACTIVE_BIAS_def BUS1_ACTIVE_RELEASE_DIRECT_def
  BUS1_ACTIVE_RELEASE_def BUS1_ACTIVE_DRAINED_def BUS1_ACTIVE_NEW_def BUS1_ACTIVE_RESERVED_def

lemma sint32_bounds: "- 2147483648 \<le> sint (c::s32)" "sint (c::s32) \<le> 2147483647"
  using sint_ge [of c] sint_lt [of c] by simp_all

lemma sint_add_exact:
  "- 2147483648 \<le> sint (a::s32) + sint b \<Longrightarrow> sint a + sint b \<le> 2147483647
   \<Longrightarrow> sint (a + b) = sint a + sint b"
  by (simp add: sint_word_ariths signed_take_bit_int_eq_self)

lemma sint_sub_exact:
  "- 2147483648 \<le> sint (a::s32) - sint b \<Longrightarrow> sint a - sint b \<le> 2147483647
   \<Longrightarrow> sint (a - b) = sint a - sint b"
  by (simp add: sint_word_ariths signed_take_bit_int_eq_self)

lemma sint_BIAS: "sint BUS1_ACTIVE_BIAS = - 2147483643"
  by (simp add: active_consts)

lemma sint_RELEASE_DIRECT: "sint BUS1_ACTIVE_RELEASE_DIRECT = - 2147483644"
  by (simp add: active_consts)

lemma sint_RELEASE: "sint BUS1_ACTIVE_RELEASE = - 2147483645"
  by (simp add: active_consts)

lemma sint_DRAINED: "sint BUS1_ACTIVE_DRAINED = - 2147483646"
  by (simp add: active_consts)

lemma sint_NEW: "sint BUS1_ACTIVE_NEW = - 2147483647"
  by (simp add: active_consts)

lemmas sint_consts = sint_BIAS sint_RELEASE_DIRECT sint_RELEASE sint_DRAINED sint_NEW

lemma sint_add_BIAS: "0 \<le> sint c \<Longrightarrow> sint (c + BUS1_ACTIVE_BIAS) = sint c - 2147483643"
  using sint32_bounds [of c] by (subst sint_add_exact) (simp_all add: sint_BIAS)

lemma add_unless_negative_loop_fresh:
  "add_unless_negative_loop a add (mem s a) s =
     (if 0 \<le>s mem s a then (1, atomic_set a (mem s a + add) s) else (0, s))"
  by (subst add_unless_negative_loop.simps) (simp add: atomic_cmpxchg_def)

lemma add_unless_negative_eq:
  "bus1_active_add_unless_negative a add s =
     (if 0 \<le>s mem s a then (1, atomic_set a (mem s a + add) s) else (0, s))"
  by (simp add: bus1_active_add_unless_negative_def atomic_read_def
      add_unless_negative_loop_fresh)

lemma deactivate_eq:
  "bus1_active_deactivate a s =
     (if mem s a = BUS1_ACTIVE_NEW then atomic_set a BUS1_ACTIVE_RELEASE_DIRECT s
      else if 0 \<le>s mem s a then atomic_set a (mem s a + BUS1_ACTIVE_BIAS) s
      else s)"
  by (simp add: bus1_active_deactivate_def atomic_cmpxchg_def add_unless_negative_eq)

lemma deactivate_twice:
  assumes "sint (mem s a) < 2147483643"
  shows "bus1_active_deactivate a (bus1_active_deactivate a s) = bus1_active_deactivate a s"
proof -
  let ?c = "mem s a"
  consider "?c = BUS1_ACTIVE_NEW"
    | "?c \<noteq> BUS1_ACTIVE_NEW" "0 \<le> sint ?c"
    | "?c \<noteq> BUS1_ACTIVE_NEW" "sint ?c < 0"
    by linarith
  then show ?thesis
  proof cases
    case 1
    then show ?thesis
      by (simp add: deactivate_eq atomic_set_def emit_def word_sle_eq active_consts)
  next
    case 2
    have neg: "sint (?c + BUS1_ACTIVE_BIAS) < 0"
      using 2 assms by (simp add: sint_add_BIAS)
    have "sint (?c + BUS1_ACTIVE_BIAS) \<noteq> sint BUS1_ACTIVE_NEW"
      using 2 by (simp add: sint_add_BIAS sint_NEW)
    then have "?c + BUS1_ACTIVE_BIAS \<noteq> BUS1_ACTIVE_NEW" by auto
    with 2 neg show ?thesis
      by (simp add: deactivate_eq atomic_set_def emit_def word_sle_eq)
  next
    case 3
    then show ?thesis by (simp add: deactivate_eq word_sle_eq)
  qed
qed

lemma deactivate_draining:
  assumes "lifecycle_of (mem s a) = St_ACTIVE k" "k < 2147483643"
  shows "lifecycle_of (mem (bus1_active_deactivate a s) a) = St_DRAINING k"
proof -
  let ?c = "mem s a"
  have c: "0 \<le> sint ?c" "nat (sint ?c) = k"
    using assms(1) by (auto simp: lifecycle_of_def word_sle_eq split: if_splits)
  have "?c \<noteq> BUS1_ACTIVE_NEW" using c by (auto simp: sint_NEW)
  then have "mem (bus1_active_deactivate a s) a = ?c + BUS1_ACTIVE_BIAS"
    using c by (simp add: deactivate_eq atomic_set_def emit_def word_sle_eq)
  moreover have "sint (?c + BUS1_ACTIVE_BIAS) = sint ?c - 2147483643"
    using c by (simp add: sint_add_BIAS)
  ultimately show ?thesis
    using c assms(2) by (simp add: lifecycle_of_def word_sle_eq sint_BIAS)
qed

lemma acquire_eq:
  "bus1_active_acquire (Some a) s =
     (if 0 \<le>s mem s a then (Some a, atomic_set a (mem s a + 1) s) else (None, s))"
  by (simp add: bus1_active_acquire_def atomic_inc_unless_negative_def)

lemma drain_not_deactivated:
  "\<not> bus1_active_is_deactivated a s \<Longrightarrow> bus1_active_drain a w r s = Some (False, emit WARN s)"
  by (simp add: bus1_active_drain_def)

section \<open>The claims about active references, one call at a time\<close>

text \<open>
  C3. An acquire on an object whose counter is not negative stores the counter plus
  one (the \<open>int\<close> addition of the atomic operation; below \<open>INT_MAX\<close> the value grows
  by exactly one) and returns the pointer it was given. On a negative counter it
  returns \<open>NULL\<close> and changes nothing; in particular on every deactivated object.
\<close>

theorem C3_acquire:
  "(0 \<le> sint (mem s a) \<longrightarrow>
      bus1_active_acquire (Some a) s =
        (Some a, s\<lparr>mem := (mem s)(a := mem s a + 1),
                    klog := klog s @ [STORE a (mem s a + 1)]\<rparr>)) \<and>
   (0 \<le> sint (mem s a) \<and> sint (mem s a) < 2147483647 \<longrightarrow>
      sint (mem (snd (bus1_active_acquire (Some a) s)) a) = sint (mem s a) + 1) \<and>
   (sint (mem s a) < 0 \<longrightarrow> bus1_active_acquire (Some a) s = (None, s)) \<and>
   (bus1_active_is_deactivated a s \<longrightarrow> bus1_active_acquire (Some a) s = (None, s))"
proof -
  have "sint (mem s a + 1) = sint (mem s a) + 1"
    if "0 \<le> sint (mem s a)" "sint (mem s a) < 2147483647"
    using that by (subst sint_add_exact) simp_all
  then show ?thesis
    by (auto simp: acquire_eq atomic_set_def emit_def word_sle_eq word_sless_alt
        bus1_active_is_deactivated_def atomic_read_def Let_def)
qed

theorem C3_acquire_witness:
  "bus1_active_acquire (Some 7) \<lparr>mem = (\<lambda>_. 2), klog = []\<rparr> =
     (Some 7, \<lparr>mem = (\<lambda>_. 2)(7 := 3), klog = [STORE 7 3]\<rparr>) \<and>
   bus1_active_is_deactivated 7 \<lparr>mem = (\<lambda>_. BUS1_ACTIVE_BIAS + 2), klog = []\<rparr> \<and>
   bus1_active_acquire (Some 7) \<lparr>mem = (\<lambda>_. BUS1_ACTIVE_BIAS + 2), klog = []\<rparr> =
     (None, \<lparr>mem = (\<lambda>_. BUS1_ACTIVE_BIAS + 2), klog = []\<rparr>)"
  using C3_acquire [of "\<lparr>mem = (\<lambda>_. 2), klog = []\<rparr>" 7]
    C3_acquire [of "\<lparr>mem = (\<lambda>_. BUS1_ACTIVE_BIAS + 2), klog = []\<rparr>" 7]
  by (simp add: bus1_active_is_deactivated_def atomic_read_def word_sless_alt active_consts)

text \<open>
  C4, as the source has it. With \<open>INT_MAX\<close> references the sum of the counter and the
  bias is 4, not negative: the object stays active, and a second deactivate adds the
  bias once more. Two deactivations then differ from one.
\<close>

theorem C4_deactivate_twice_counterexample:
  "mem (bus1_active_deactivate 7 \<lparr>mem = (\<lambda>_. 0x7FFFFFFF), klog = []\<rparr>) 7 = 4 \<and>
   mem (bus1_active_deactivate 7
         (bus1_active_deactivate 7 \<lparr>mem = (\<lambda>_. 0x7FFFFFFF), klog = []\<rparr>)) 7 = 0x80000009"
  by (simp add: deactivate_eq atomic_set_def emit_def word_sle_eq active_consts)

text \<open>
  C4, amended. Deactivate takes \<open>NEW\<close> to \<open>RELEASE_DIRECT\<close>, adds the bias to a
  counter that is not negative, and leaves any other negative counter as it is. With
  fewer than \<open>2 ^ 31 - 5\<close> references, which is the negated bias, the sum is negative:
  \<open>ACTIVE(k)\<close> becomes \<open>DRAINING(k)\<close>, and a second deactivate changes nothing.
\<close>

theorem C4_deactivate:
  "(mem s a = BUS1_ACTIVE_NEW \<longrightarrow>
      bus1_active_deactivate a s = atomic_set a BUS1_ACTIVE_RELEASE_DIRECT s) \<and>
   (0 \<le> sint (mem s a) \<longrightarrow>
      bus1_active_deactivate a s = atomic_set a (mem s a + BUS1_ACTIVE_BIAS) s) \<and>
   (sint (mem s a) < 0 \<and> mem s a \<noteq> BUS1_ACTIVE_NEW \<longrightarrow> bus1_active_deactivate a s = s) \<and>
   (lifecycle_of (mem s a) = St_ACTIVE k \<and> k < 2147483643 \<longrightarrow>
      lifecycle_of (mem (bus1_active_deactivate a s) a) = St_DRAINING k) \<and>
   (sint (mem s a) < 2147483643 \<longrightarrow>
      bus1_active_deactivate a (bus1_active_deactivate a s) = bus1_active_deactivate a s)"
proof (intro conjI impI)
  assume "mem s a = BUS1_ACTIVE_NEW"
  then show "bus1_active_deactivate a s = atomic_set a BUS1_ACTIVE_RELEASE_DIRECT s"
    by (simp add: deactivate_eq)
next
  assume nonneg: "0 \<le> sint (mem s a)"
  then have "mem s a \<noteq> BUS1_ACTIVE_NEW" by (auto simp: sint_NEW)
  with nonneg show "bus1_active_deactivate a s = atomic_set a (mem s a + BUS1_ACTIVE_BIAS) s"
    by (simp add: deactivate_eq word_sle_eq)
next
  assume "sint (mem s a) < 0 \<and> mem s a \<noteq> BUS1_ACTIVE_NEW"
  then show "bus1_active_deactivate a s = s"
    by (simp add: deactivate_eq word_sle_eq)
next
  assume "lifecycle_of (mem s a) = St_ACTIVE k \<and> k < 2147483643"
  then show "lifecycle_of (mem (bus1_active_deactivate a s) a) = St_DRAINING k"
    by (simp add: deactivate_draining)
next
  assume "sint (mem s a) < 2147483643"
  then show "bus1_active_deactivate a (bus1_active_deactivate a s) = bus1_active_deactivate a s"
    by (rule deactivate_twice)
qed

theorem C4_deactivate_witness:
  "bus1_active_deactivate 7 \<lparr>mem = (\<lambda>_. BUS1_ACTIVE_NEW), klog = []\<rparr> =
     \<lparr>mem = (\<lambda>_. BUS1_ACTIVE_NEW)(7 := BUS1_ACTIVE_RELEASE_DIRECT),
      klog = [STORE 7 BUS1_ACTIVE_RELEASE_DIRECT]\<rparr> \<and>
   lifecycle_of (mem \<lparr>mem = (\<lambda>_. 3), klog = []\<rparr> 7) = St_ACTIVE 3 \<and>
   lifecycle_of (mem (bus1_active_deactivate 7 \<lparr>mem = (\<lambda>_. 3), klog = []\<rparr>) 7) = St_DRAINING 3 \<and>
   bus1_active_deactivate 7 (bus1_active_deactivate 7 \<lparr>mem = (\<lambda>_. 3), klog = []\<rparr>) =
     bus1_active_deactivate 7 \<lparr>mem = (\<lambda>_. 3), klog = []\<rparr> \<and>
   bus1_active_deactivate 7 \<lparr>mem = (\<lambda>_. BUS1_ACTIVE_BIAS + 3), klog = []\<rparr> =
     \<lparr>mem = (\<lambda>_. BUS1_ACTIVE_BIAS + 3), klog = []\<rparr>"
proof -
  let ?new = "\<lparr>mem = (\<lambda>_. BUS1_ACTIVE_NEW), klog = []\<rparr>"
  let ?act = "\<lparr>mem = (\<lambda>_. 3 :: s32), klog = []\<rparr>"
  let ?dra = "\<lparr>mem = (\<lambda>_. BUS1_ACTIVE_BIAS + 3), klog = []\<rparr>"
  have new: "mem ?new 7 = BUS1_ACTIVE_NEW"
    by simp
  have act: "lifecycle_of (mem ?act 7) = St_ACTIVE 3 \<and> (3 :: nat) < 2147483643"
    by (simp add: lifecycle_of_def word_sle_eq)
  have few: "sint (mem ?act 7) < 2147483643"
    by simp
  have dra: "sint (mem ?dra 7) < 0 \<and> mem ?dra 7 \<noteq> BUS1_ACTIVE_NEW"
    by (simp add: active_consts)
  have "bus1_active_deactivate 7 ?new = atomic_set 7 BUS1_ACTIVE_RELEASE_DIRECT ?new"
    using C4_deactivate [of ?new 7 0] new by blast
  moreover have "lifecycle_of (mem (bus1_active_deactivate 7 ?act) 7) = St_DRAINING 3"
    using C4_deactivate [of ?act 7 3] act by blast
  moreover have "bus1_active_deactivate 7 (bus1_active_deactivate 7 ?act) =
      bus1_active_deactivate 7 ?act"
    using C4_deactivate [of ?act 7 3] few by blast
  moreover have "bus1_active_deactivate 7 ?dra = ?dra"
    using C4_deactivate [of ?dra 7 0] dra by blast
  ultimately show ?thesis
    using act by (simp add: atomic_set_def emit_def)
qed

text \<open>
  C5, as the source has it. The wake is guarded by \<open>if (waitq)\<close>: a release that
  brings the counter to the bias and is given \<open>NULL\<close> for the wait-queue stores the
  counter and wakes nobody.
\<close>

theorem C5_release_null_waitq_counterexample:
  "mem (snd (bus1_active_release (Some 7) None
              \<lparr>mem = (\<lambda>_. BUS1_ACTIVE_BIAS + 1), klog = []\<rparr>)) 7 = BUS1_ACTIVE_BIAS \<and>
   klog (snd (bus1_active_release (Some 7) None
               \<lparr>mem = (\<lambda>_. BUS1_ACTIVE_BIAS + 1), klog = []\<rparr>)) = [STORE 7 BUS1_ACTIVE_BIAS]"
  by (simp add: bus1_active_release_def atomic_dec_return_def atomic_set_def emit_def)

text \<open>
  C5, amended. A release on an object stores the counter minus one and returns
  \<open>NULL\<close>. It then wakes one waiter of the wait-queue exactly when the new value is
  the bias and a wait-queue was passed; otherwise the store is all it does.
\<close>

theorem C5_release:
  "bus1_active_release (Some a) waitq s =
     (None, s\<lparr>mem := (mem s)(a := mem s a - 1),
               klog := klog s @ STORE a (mem s a - 1) #
                 (case waitq of
                    None \<Rightarrow> []
                  | Some w \<Rightarrow> if mem s a - 1 = BUS1_ACTIVE_BIAS then [WAKE_UP w] else [])\<rparr>)"
  by (simp add: bus1_active_release_def atomic_dec_return_def atomic_set_def emit_def
      split: option.splits)

theorem C5_release_witness:
  "bus1_active_release (Some 7) (Some 3) \<lparr>mem = (\<lambda>_. BUS1_ACTIVE_BIAS + 1), klog = []\<rparr> =
     (None, \<lparr>mem = (\<lambda>_. BUS1_ACTIVE_BIAS + 1)(7 := BUS1_ACTIVE_BIAS),
              klog = [STORE 7 BUS1_ACTIVE_BIAS, WAKE_UP 3]\<rparr>) \<and>
   bus1_active_release (Some 7) (Some 3) \<lparr>mem = (\<lambda>_. 5), klog = []\<rparr> =
     (None, \<lparr>mem = (\<lambda>_. 5)(7 := 4), klog = [STORE 7 4]\<rparr>)"
  using C5_release [of 7 "Some 3" "\<lparr>mem = (\<lambda>_. BUS1_ACTIVE_BIAS + 1), klog = []\<rparr>"]
    C5_release [of 7 "Some 3" "\<lparr>mem = (\<lambda>_. 5), klog = []\<rparr>"]
  by (simp add: active_consts)

text \<open>
  C9. A drain on an object that is still \<open>NEW\<close> or still active makes the
  \<open>WARN_ON\<close> report and returns false at once: the report is the only thing added to
  the log, so the callback is not called, nobody is woken and the counter is not
  touched.
\<close>

theorem C9_drain_before_deactivate:
  "mem s a = BUS1_ACTIVE_NEW \<or> 0 \<le> sint (mem s a) \<Longrightarrow>
   bus1_active_drain a waitq release s = Some (False, s\<lparr>klog := klog s @ [WARN]\<rparr>)"
  by (auto simp: drain_not_deactivated bus1_active_is_deactivated_def atomic_read_def
      word_sless_alt emit_def)

theorem C9_drain_before_deactivate_witness:
  "bus1_active_drain 7 3 (Some 9) \<lparr>mem = (\<lambda>_. BUS1_ACTIVE_NEW), klog = []\<rparr> =
     Some (False, \<lparr>mem = (\<lambda>_. BUS1_ACTIVE_NEW), klog = [WARN]\<rparr>) \<and>
   bus1_active_drain 7 3 (Some 9) \<lparr>mem = (\<lambda>_. 2), klog = []\<rparr> =
     Some (False, \<lparr>mem = (\<lambda>_. 2), klog = [WARN]\<rparr>)"
  using C9_drain_before_deactivate [of "\<lparr>mem = (\<lambda>_. BUS1_ACTIVE_NEW), klog = []\<rparr>" 7 3 "Some 9"]
    C9_drain_before_deactivate [of "\<lparr>mem = (\<lambda>_. 2), klog = []\<rparr>" 7 3 "Some 9"]
  by simp

text \<open>
  C10. Given \<open>NULL\<close> for the object, acquire and release return \<open>NULL\<close> and leave the
  state, log included, as it was, whatever the wait-queue argument is.
\<close>

theorem C10_null_object:
  "bus1_active_acquire None s = (None, s) \<and> bus1_active_release None waitq s = (None, s)"
  by (simp add: bus1_active_acquire_def bus1_active_release_def)

section \<open>Facts about interleaved calls\<close>

subsection \<open>Signed arithmetic on the counter\<close>

lemma sint_inc: "sint (c::s32) < 2147483647 \<Longrightarrow> sint (c + 1) = sint c + 1"
  using sint32_bounds [of c] by (subst sint_add_exact) simp_all

lemma sint_dec: "- 2147483648 < sint (c::s32) \<Longrightarrow> sint (c - 1) = sint c - 1"
  using sint32_bounds [of c] by (subst sint_sub_exact) simp_all

lemma is_NEW: "c = BUS1_ACTIVE_NEW \<longleftrightarrow> sint c = - 2147483647"
  using word_eq_iff_signed [where ?'a = int, of c BUS1_ACTIVE_NEW] by (simp add: sint_NEW)

lemma is_DRAINED: "c = BUS1_ACTIVE_DRAINED \<longleftrightarrow> sint c = - 2147483646"
  using word_eq_iff_signed [where ?'a = int, of c BUS1_ACTIVE_DRAINED] by (simp add: sint_DRAINED)

lemma is_RELEASE: "c = BUS1_ACTIVE_RELEASE \<longleftrightarrow> sint c = - 2147483645"
  using word_eq_iff_signed [where ?'a = int, of c BUS1_ACTIVE_RELEASE] by (simp add: sint_RELEASE)

lemma is_RELEASE_DIRECT: "c = BUS1_ACTIVE_RELEASE_DIRECT \<longleftrightarrow> sint c = - 2147483644"
  using word_eq_iff_signed [where ?'a = int, of c BUS1_ACTIVE_RELEASE_DIRECT]
  by (simp add: sint_RELEASE_DIRECT)

lemma is_BIAS: "c = BUS1_ACTIVE_BIAS \<longleftrightarrow> sint c = - 2147483643"
  using word_eq_iff_signed [where ?'a = int, of c BUS1_ACTIVE_BIAS] by (simp add: sint_BIAS)

lemmas as_sint = is_NEW is_DRAINED is_RELEASE is_RELEASE_DIRECT is_BIAS
  word_sle_eq word_sless_alt sint_consts

subsection \<open>The kernel state after an atomic operation\<close>

lemma mem_atomic_set [simp]: "mem (atomic_set b v k) a = (if a = b then v else mem k a)"
  by (simp add: atomic_set_def emit_def)

lemma klog_atomic_set [simp]: "klog (atomic_set b v k) = klog k @ [STORE b v]"
  by (simp add: atomic_set_def emit_def)

lemma mem_emit [simp]: "mem (emit e k) = mem k"
  by (simp add: emit_def)

lemma klog_emit [simp]: "klog (emit e k) = klog k @ [e]"
  by (simp add: emit_def)

lemma goto_simps [simp]:
  "ks (goto t p k s) = k"
  "held (goto t p k s) = held s"
  "rets (goto t p k s) = rets s @ returned t p"
  "threads (goto t p k s) u =
     (if u = t then \<lparr>pc = p, did = did (threads s t) @ drop (length (klog (ks s))) (klog k)\<rparr>
      else threads s u)"
  by (simp_all add: goto_def)

lemma enter_simps [simp]:
  "ks (enter t p k s) = k"
  "held (enter t p k s) = held s"
  "rets (enter t p k s) = rets s @ returned t p"
  "threads (enter t p k s) u =
     (if u = t then \<lparr>pc = p, did = drop (length (klog (ks s))) (klog k)\<rparr> else threads s u)"
  by (simp_all add: enter_def)

subsection \<open>A step leaves the other threads alone\<close>

lemma others_invoke: "invoke t c s = Some s' \<Longrightarrow> u \<noteq> t \<Longrightarrow> threads s' u = threads s u"
  by (cases "(t, c, s)" rule: invoke.cases) (auto split: prod.splits if_splits)

lemma others_resume: "resume t p s = Some s' \<Longrightarrow> u \<noteq> t \<Longrightarrow> threads s' u = threads s u"
  by (cases "(t, p, s)" rule: resume.cases) (auto split: prod.splits if_splits option.splits)

text \<open>A sleeper woken without a wake-up: nothing changes but its stage.\<close>

lemma spurious_cases:
  assumes "spurious t p s = Some s'"
  obtains (first) a w f n where "p = Drain_wait a w f (Sleep n)"
      "s' = goto t (Drain_wait a w f Enqueue) (ks s) s"
    | (second) a w f v n where "p = Drain_wait_drained a w f v (Sleep n)"
      "s' = goto t (Drain_wait_drained a w f v Enqueue) (ks s) s"
  using assms by (cases "(t, p, s)" rule: spurious.cases) auto

lemma others_spurious: "spurious t p s = Some s' \<Longrightarrow> u \<noteq> t \<Longrightarrow> threads s' u = threads s u"
  by (erule spurious_cases) auto

lemma others_step: "step l s = Some s' \<Longrightarrow> u \<noteq> actor l \<Longrightarrow> threads s' u = threads s u"
  by (cases l) (auto simp: others_invoke others_resume others_spurious split: if_splits)

lemma wait_event_over: "wait_event w c evs st = Some None \<Longrightarrow> c"
  by (cases st) (auto split: if_splits)

lemma spurious_same:
  assumes "spurious t p s = Some s'"
  shows "ks s' = ks s" "held s' = held s" "rets s' = rets s"
  using assms by (auto elim!: spurious_cases)

lemma counted_spurious: "counted a s \<Longrightarrow> spurious t p s = Some s' \<Longrightarrow> counted a s'"
  by (simp add: counted_def spurious_same)

lemma winner_spurious:
  assumes "single_winner a s" "spurious t (pc (threads s t)) s = Some s'"
  shows "single_winner a s'"
proof -
  have "winner_on a (pc (threads s' u)) = winner_on a (pc (threads s u))" for u
    using assms(2) by (rule spurious_cases) auto
  then show ?thesis using assms(1) by (simp add: single_winner_def spurious_same [OF assms(2)])
qed

lemma knows_spurious:
  assumes "knows a s" "spurious t (pc (threads s t)) s = Some s'"
  shows "knows a s'"
proof -
  have "drain_knows a c (pc (threads s' u)) = drain_knows a c (pc (threads s u))" for u c
    using assms(2) by (rule spurious_cases) auto
  then show ?thesis using assms(1) by (simp add: knows_def spurious_same [OF assms(2)])
qed

subsection \<open>The counter keeps counting the held references\<close>

lemma release_effect:
  "invoke t (Release (Some b) w) s = Some s' \<Longrightarrow>
   ks s' = atomic_set b (mem (ks s) b - 1) (ks s) \<and> held s' = (held s)(b := held s b - 1)"
  by (auto simp: atomic_dec_return_def split: if_splits option.splits)

lemma counted_invoke:
  assumes "counted a s" "invoke t c s = Some s'" "releasable (Invoke t c) s"
    "held s' a < 2147483643"
  shows "counted a s'"
proof (cases c)
  case (Activate b)
  then show ?thesis using assms
    by (auto simp: counted_def Let_def atomic_cmpxchg_def as_sint split: if_splits)
next
  case (Acquire bo)
  then show ?thesis using assms
    by (cases bo)
      (auto simp: counted_def Let_def atomic_inc_unless_negative_def as_sint sint_inc
        split: if_splits)
next
  case (Release bo w)
  show ?thesis
  proof (cases bo)
    case None
    then show ?thesis using assms Release by (auto simp: counted_def Let_def split: if_splits)
  next
    case (Some b)
    note e = release_effect [OF assms(2) [unfolded Release Some]]
    have "b = a \<Longrightarrow> 0 < held s a" using assms(3) Release Some by simp
    then show ?thesis using assms(1,4) e
      by (auto simp: counted_def Let_def as_sint sint_dec split: if_splits)
  qed
next
  case (Deactivate b)
  then show ?thesis using assms
    by (auto simp: counted_def Let_def atomic_cmpxchg_def as_sint split: if_splits)
next
  case (Drain b w f)
  then show ?thesis using assms
    by (auto simp: counted_def Let_def split: if_splits)
qed

lemma counted_resume:
  assumes "consistent a s" "resume t (pc (threads s t)) s = Some s'"
  shows "counted a s'"
proof -
  have c: "counted a s" and w: "single_winner a s"
    using assms(1) by (simp_all add: consistent_def)
  show ?thesis
  proof (cases "pc (threads s t)")
    case (Deactivate_loop b v)
    then show ?thesis using assms(2) c
      by (auto simp: counted_def Let_def atomic_cmpxchg_def as_sint sint_add_BIAS
          split: if_splits)
  next
    case (Drain_cmpxchg1 b w f)
    then show ?thesis using assms(2) c
      by (auto simp: counted_def Let_def atomic_cmpxchg_def as_sint split: if_splits)
  next
    case (Drain_cmpxchg2 b w f)
    then show ?thesis using assms(2) c
      by (auto simp: counted_def Let_def atomic_cmpxchg_def as_sint split: if_splits)
  next
    case (Drain_set b x f v)
    then have "winner_on b (pc (threads s t))" by simp
    then have "a = b \<Longrightarrow> mem (ks s) a = BUS1_ACTIVE_RELEASE"
      using w unfolding single_winner_def by blast
    then show ?thesis using assms(2) c Drain_set
      by (auto simp: counted_def Let_def as_sint split: if_splits)
  qed (use assms(2) c in
      \<open>auto simp: counted_def Let_def atomic_read_def split: if_splits option.splits\<close>)
qed

subsection \<open>At most one thread has marked the object\<close>

lemma winner_invoke:
  assumes "consistent a s" "between_calls (pc (threads s t))" "invoke t c s = Some s'"
    "releasable (Invoke t c) s"
  shows "single_winner a s'"
proof -
  have c: "counted a s" and w: "single_winner a s"
    using assms(1) by (simp_all add: consistent_def)
  have nw: "\<not> winner_on a (pc (threads s t))"
    using assms(2) by (cases "pc (threads s t)") auto
  show ?thesis
  proof (cases c)
    case (Activate b)
    then show ?thesis using assms(3) c w nw
      by (auto simp: single_winner_def counted_def Let_def atomic_cmpxchg_def as_sint
          split: if_splits)
  next
    case (Acquire bo)
    then show ?thesis using assms(3) c w nw
      by (cases bo)
        (auto simp: single_winner_def counted_def Let_def atomic_inc_unless_negative_def
          as_sint split: if_splits)
  next
    case (Release bo x)
    show ?thesis
    proof (cases bo)
      case None
      then show ?thesis using assms(3) Release w nw
        by (auto simp: single_winner_def split: if_splits)
    next
      case (Some b)
      note e = release_effect [OF assms(3) [unfolded Release Some]]
      note o = others_invoke [OF assms(3)]
      have h: "b = a \<Longrightarrow> 0 < held s a" using assms(4) Release Some by simp
      have nw': "\<not> winner_on a (pc (threads s' t))"
        using assms(3) Release Some
        by (auto simp: atomic_dec_return_def split: if_splits option.splits)
      have same: "winner_on a (pc (threads s' u)) \<Longrightarrow> winner_on a (pc (threads s u)) \<and> u \<noteq> t" for u
        using nw' o [of u] by (cases "u = t") auto
      have keep: "winner_on a (pc (threads s u)) \<Longrightarrow> mem (ks s') a = BUS1_ACTIVE_RELEASE" for u
        using w c h e unfolding single_winner_def
        by (auto simp: counted_def Let_def as_sint split: if_splits)
      show ?thesis
        unfolding single_winner_def using same keep w unfolding single_winner_def by blast
    qed
  next
    case (Deactivate b)
    then show ?thesis using assms(3) c w nw
      by (auto simp: single_winner_def counted_def Let_def atomic_cmpxchg_def as_sint
          split: if_splits)
  next
    case (Drain b x f)
    then show ?thesis using assms(3) c w nw
      by (auto simp: single_winner_def split: if_splits)
  qed
qed

lemma winner_resume:
  assumes "consistent a s" "resume t (pc (threads s t)) s = Some s'"
  shows "single_winner a s'"
proof -
  have c: "counted a s" and w: "single_winner a s" and k: "knows a s"
    using assms(1) by (simp_all add: consistent_def)
  have kt: "drain_knows a (mem (ks s) a) (pc (threads s t))"
    using k by (simp add: knows_def)
  have w1: "\<And>u. winner_on a (pc (threads s u)) \<Longrightarrow> mem (ks s) a = BUS1_ACTIVE_RELEASE"
    and w2: "\<And>u v. winner_on a (pc (threads s u)) \<Longrightarrow> winner_on a (pc (threads s v)) \<Longrightarrow> u = v"
    using w unfolding single_winner_def by blast+
  show ?thesis
  proof (cases "pc (threads s t)")
    case (Deactivate_loop b v)
    then show ?thesis using assms(2) w1 w2
      by (auto simp: single_winner_def atomic_cmpxchg_def as_sint sint_add_BIAS
          split: if_splits)
  next
    case (Drain_cmpxchg1 b x f)
    then show ?thesis using assms(2) w1 w2
      by (auto simp: single_winner_def atomic_cmpxchg_def drained_by_def as_sint
          split: if_splits)
  next
    case (Drain_cmpxchg2 b x f)
    then show ?thesis using assms(2) w1 w2 kt
      by (auto simp: single_winner_def atomic_cmpxchg_def drained_by_def as_sint
          split: if_splits)
  next
    case (Drain_release b x f v)
    then show ?thesis using assms(2) w1 w2 w1 [of t] w2 [of t] w2 [of _ t]
      by (auto simp: single_winner_def split: if_splits option.splits)
  next
    case (Drain_set b x f v)
    then show ?thesis using assms(2) w1 w2 w1 [of t] w2 [of t] w2 [of _ t]
      by (auto simp: single_winner_def split: if_splits)
  qed (use assms(2) w1 w2 in
      \<open>auto simp: single_winner_def atomic_read_def split: if_splits option.splits\<close>)
qed

subsection \<open>Every step moves the counter along one of the listed changes\<close>

lemma move_same [simp]: "counter_move c c"
  by (simp add: counter_move_def)

lemma move_activate: "c = BUS1_ACTIVE_NEW \<Longrightarrow> counter_move c 0"
  by (simp add: counter_move_def)

lemma move_direct: "c = BUS1_ACTIVE_NEW \<Longrightarrow> counter_move c BUS1_ACTIVE_RELEASE_DIRECT"
  by (simp add: counter_move_def)

lemma move_inc: "0 \<le> sint c \<Longrightarrow> sint c < 2147483642 \<Longrightarrow> counter_move c (c + 1)"
  by (simp add: counter_move_def)

lemma move_dec:
  "0 < sint c \<or> - 2147483643 < sint c \<and> sint c < 0 \<Longrightarrow> counter_move c (c - 1)"
  by (simp add: counter_move_def)

lemma move_bias:
  "0 \<le> sint c \<Longrightarrow> sint c < 2147483643 \<Longrightarrow> counter_move c (c + BUS1_ACTIVE_BIAS)"
  by (simp add: counter_move_def)

lemma move_release1: "c = BUS1_ACTIVE_RELEASE_DIRECT \<Longrightarrow> counter_move c BUS1_ACTIVE_RELEASE"
  by (simp add: counter_move_def)

lemma move_release2: "c = BUS1_ACTIVE_BIAS \<Longrightarrow> counter_move c BUS1_ACTIVE_RELEASE"
  by (simp add: counter_move_def)

lemma move_drained: "c = BUS1_ACTIVE_RELEASE \<Longrightarrow> counter_move c BUS1_ACTIVE_DRAINED"
  by (simp add: counter_move_def)

lemmas moves = move_activate move_direct move_inc move_dec move_bias move_release1
  move_release2 move_drained

lemma move_invoke:
  assumes "counted a s" "invoke t c s = Some s'" "releasable (Invoke t c) s"
    "held s' a < 2147483643"
  shows "counter_move (mem (ks s) a) (mem (ks s') a)"
proof (cases c)
  case (Activate b)
  then show ?thesis using assms
    by (auto simp: moves atomic_cmpxchg_def split: if_splits)
next
  case (Acquire bo)
  then show ?thesis using assms
    by (cases bo)
      (auto simp: moves counted_def Let_def atomic_inc_unless_negative_def word_sle_eq
        split: if_splits)
next
  case (Release bo w)
  show ?thesis
  proof (cases bo)
    case None
    then show ?thesis using assms Release by auto
  next
    case (Some b)
    note e = release_effect [OF assms(2) [unfolded Release Some]]
    have "b = a \<Longrightarrow> 0 < held s a" using assms(3) Release Some by simp
    then show ?thesis using assms(1,4) e
      by (auto simp: moves counted_def Let_def split: if_splits)
  qed
next
  case (Deactivate b)
  then show ?thesis using assms
    by (auto simp: moves atomic_cmpxchg_def split: if_splits)
next
  case (Drain b w f)
  then show ?thesis using assms
    by (auto split: if_splits)
qed

lemma move_resume:
  assumes "consistent a s" "resume t (pc (threads s t)) s = Some s'"
  shows "counter_move (mem (ks s) a) (mem (ks s') a)"
proof -
  have c: "counted a s" and w: "single_winner a s"
    using assms(1) by (simp_all add: consistent_def)
  show ?thesis
  proof (cases "pc (threads s t)")
    case (Deactivate_loop b v)
    then show ?thesis using assms(2) c
      by (auto simp: moves counted_def Let_def atomic_cmpxchg_def word_sle_eq
          split: if_splits)
  next
    case (Drain_cmpxchg1 b w f)
    then show ?thesis using assms(2)
      by (auto simp: moves atomic_cmpxchg_def split: if_splits)
  next
    case (Drain_cmpxchg2 b w f)
    then show ?thesis using assms(2)
      by (auto simp: moves atomic_cmpxchg_def split: if_splits)
  next
    case (Drain_set b x f v)
    then have "winner_on b (pc (threads s t))" by simp
    then have "a = b \<Longrightarrow> mem (ks s) a = BUS1_ACTIVE_RELEASE"
      using w unfolding single_winner_def by blast
    then show ?thesis using assms(2) Drain_set
      by (auto simp: moves split: if_splits)
  qed (use assms(2) in \<open>auto simp: atomic_read_def split: if_splits option.splits\<close>)
qed

lemma move_step:
  assumes "consistent a s" "step l s = Some s'" "releasable l s" "held s' a < 2147483643"
  shows "counter_move (mem (ks s) a) (mem (ks s') a)"
proof (cases l)
  case (Invoke t c)
  then show ?thesis using assms move_invoke [of a s t c s']
    by (auto simp: consistent_def split: if_splits)
next
  case (Resume t)
  then show ?thesis using assms move_resume [of a s t s'] by simp
next
  case (Spurious t)
  then show ?thesis using assms(2) by (simp add: spurious_same)
qed

subsection \<open>What the draining threads know stays true\<close>

lemma move_keeps_knowledge:
  assumes "counter_move c c'" "drain_knows a c p"
  shows "drain_knows a c' p"
proof -
  have fresh: "c' = c \<or> c = BUS1_ACTIVE_NEW \<or>
      (c' \<noteq> BUS1_ACTIVE_NEW \<and> c' \<noteq> BUS1_ACTIVE_RELEASE_DIRECT)"
    using assms(1) unfolding counter_move_def
    by (auto simp: as_sint sint_inc sint_dec sint_add_BIAS)
  have low: "c' \<le>s BUS1_ACTIVE_BIAS" if "c \<le>s BUS1_ACTIVE_BIAS" "c \<noteq> BUS1_ACTIVE_NEW"
    using assms(1) that unfolding counter_move_def by (auto simp: as_sint)
  have rel: "released c'" if "released c"
    using assms(1) that unfolding counter_move_def released_def by (auto simp: as_sint)
  have neg: "c' <s 0" if "c <s 0" "c \<noteq> BUS1_ACTIVE_NEW"
    using assms(1) that unfolding counter_move_def by (auto simp: as_sint sint_dec)
  show ?thesis using assms(2) fresh low rel neg by (cases p) auto
qed

lemma own_knowledge_invoke:
  assumes "invoke t c s = Some s'"
  shows "drain_knows a (mem (ks s') a) (pc (threads s' t))"
proof (cases c)
  case (Acquire bo)
  then show ?thesis using assms
    by (cases bo) (auto simp: atomic_inc_unless_negative_def split: if_splits)
next
  case (Release bo w)
  then show ?thesis using assms
    by (cases bo) (auto simp: atomic_dec_return_def split: if_splits option.splits)
next
  case (Drain b w f)
  then show ?thesis using assms
    by (auto simp: bus1_active_is_deactivated_def atomic_read_def Let_def as_sint
        split: if_splits)
qed (use assms in \<open>auto simp: atomic_cmpxchg_def split: if_splits\<close>)

lemma own_knowledge_resume:
  assumes "drain_knows a (mem (ks s) a) (pc (threads s t))" "counted a s"
    "resume t (pc (threads s t)) s = Some s'"
  shows "drain_knows a (mem (ks s') a) (pc (threads s' t))"
proof (cases "pc (threads s t)")
  case (Drain_cmpxchg1 b w f)
  then show ?thesis using assms(1,3)
    by (auto simp: atomic_cmpxchg_def drained_by_def split: if_splits)
next
  case (Drain_cmpxchg2 b w f)
  then show ?thesis using assms
    by (auto simp: atomic_cmpxchg_def drained_by_def released_def counted_def Let_def as_sint
        split: if_splits)
next
  case (Drain_wait b w f st)
  then show ?thesis using assms(1,3)
    by (auto simp: atomic_read_def split: option.splits dest: wait_event_over)
next
  case (Drain_wait_drained b w f v st)
  then show ?thesis using assms(1,3)
    by (auto simp: atomic_read_def split: option.splits)
qed (use assms(1,3) in \<open>auto simp: atomic_cmpxchg_def atomic_read_def split: if_splits\<close>)

lemma knows_step:
  assumes "consistent a s" "step l s = Some s'" "releasable l s" "held s' a < 2147483643"
  shows "knows a s'"
  unfolding knows_def
proof
  fix u
  have k: "\<And>v. drain_knows a (mem (ks s) a) (pc (threads s v))"
    using assms(1) by (simp add: consistent_def knows_def)
  have c: "counted a s" using assms(1) by (simp add: consistent_def)
  show "drain_knows a (mem (ks s') a) (pc (threads s' u))"
  proof (cases "u = actor l")
    case True
    then show ?thesis
      using assms(2) k [of u] c own_knowledge_invoke [of u _ s s' a]
        own_knowledge_resume [of a s u s'] knows_spurious [of a s u s'] assms(1)
      by (cases l) (auto simp: consistent_def knows_def split: if_splits)
  next
    case False
    then have "threads s' u = threads s u" using assms(2) by (simp add: others_step)
    then show ?thesis using k [of u] move_step [OF assms] by (simp add: move_keeps_knowledge)
  qed
qed

subsection \<open>The three facts together are kept by every step\<close>

lemma counted_step:
  assumes "consistent a s" "step l s = Some s'" "releasable l s" "held s' a < 2147483643"
  shows "counted a s'"
proof (cases l)
  case (Invoke t c)
  then show ?thesis using assms counted_invoke [of a s t c s']
    by (auto simp: consistent_def split: if_splits)
next
  case (Resume t)
  then show ?thesis using assms counted_resume [of a s t s'] by simp
next
  case (Spurious t)
  then show ?thesis using assms counted_spurious [of a s t _ s'] by (simp add: consistent_def)
qed

lemma winner_step:
  assumes "consistent a s" "step l s = Some s'" "releasable l s"
  shows "single_winner a s'"
proof (cases l)
  case (Invoke t c)
  then show ?thesis using assms winner_invoke [of a s t c s'] by (auto split: if_splits)
next
  case (Resume t)
  then show ?thesis using assms winner_resume [of a s t s'] by simp
next
  case (Spurious t)
  then show ?thesis using assms winner_spurious [of a s t s'] by (simp add: consistent_def)
qed

lemma consistent_step:
  assumes "consistent a s" "step l s = Some s'" "releasable l s" "held s' a < 2147483643"
  shows "consistent a s'"
  using counted_step [OF assms] winner_step [OF assms(1,2,3)] knows_step [OF assms]
  by (simp add: consistent_def)

lemma consistent_boot: "consistent a (boot a k)"
  by (simp add: consistent_def counted_def single_winner_def knows_def boot_def quiet_def
      bus1_active_init_def sint_NEW)

subsection \<open>The moves of the counter follow the edges of the lifecycle\<close>

lemma lifecycle_of_sint:
  "lifecycle_of c =
     (if 0 \<le> sint c then St_ACTIVE (nat (sint c))
      else if - 2147483643 \<le> sint c then St_DRAINING (nat (sint c + 2147483643))
      else if sint c = - 2147483644 then St_RELEASE_DIRECT
      else if sint c = - 2147483645 then St_RELEASE
      else if sint c = - 2147483646 then St_DRAINED
      else if sint c = - 2147483647 then St_NEW
      else St_RESERVED)"
  by (simp add: lifecycle_of_def as_sint)

lemma move_follows_edge:
  assumes "counter_move c c'"
  shows "lifecycle_edge (lifecycle_of c) (lifecycle_of c')"
proof -
  have same: "lifecycle_edge x x" for x by (cases x) auto
  consider "c' = c"
    | "c = BUS1_ACTIVE_NEW" "c' = 0"
    | "c = BUS1_ACTIVE_NEW" "c' = BUS1_ACTIVE_RELEASE_DIRECT"
    | "0 \<le> sint c" "sint c < 2147483642" "c' = c + 1"
    | "0 < sint c \<or> - 2147483643 < sint c \<and> sint c < 0" "c' = c - 1"
    | "0 \<le> sint c" "sint c < 2147483643" "c' = c + BUS1_ACTIVE_BIAS"
    | "c = BUS1_ACTIVE_RELEASE_DIRECT" "c' = BUS1_ACTIVE_RELEASE"
    | "c = BUS1_ACTIVE_BIAS" "c' = BUS1_ACTIVE_RELEASE"
    | "c = BUS1_ACTIVE_RELEASE" "c' = BUS1_ACTIVE_DRAINED"
    using assms unfolding counter_move_def by blast
  then show ?thesis
  proof cases
    case 1
    then show ?thesis by (simp add: same)
  next
    case 4
    then show ?thesis by (simp add: lifecycle_of_sint sint_inc nat_add_distrib)
  next
    case 5
    then show ?thesis by (auto simp: lifecycle_of_sint sint_dec nat_diff_distrib' Suc_nat_eq_nat_zadd1 split: if_splits)
  next
    case 6
    then show ?thesis by (simp add: lifecycle_of_sint sint_add_BIAS)
  qed (simp_all add: lifecycle_of_sint sint_consts)
qed

lemma edge_rank: "lifecycle_edge x y \<Longrightarrow> rank x \<le> rank y"
  by (cases x; cases y) auto

subsection \<open>Runs\<close>

lemma run_append:
  "run (xs @ ys) s = (case run xs s of None \<Rightarrow> None | Some s' \<Rightarrow> run ys s')"
  by (induction xs arbitrary: s) (auto split: option.splits)

lemma balanced_append:
  "balanced (xs @ ys) s =
     (balanced xs s \<and> (case run xs s of None \<Rightarrow> True | Some s' \<Rightarrow> balanced ys s'))"
  by (induction xs arbitrary: s) (auto split: option.splits)

lemma sorted_never_revisits: "sorted xs \<Longrightarrow> never_revisits xs"
proof (induction xs)
  case Nil
  then show ?case by simp
next
  case (Cons x xs)
  have "x \<notin> set (dropWhile (\<lambda>y. y = x) xs)"
  proof
    assume "x \<in> set (dropWhile (\<lambda>y. y = x) xs)"
    then obtain z zs where d: "dropWhile (\<lambda>y. y = x) xs = z # zs" "x \<in> set (z # zs)"
      by (cases "dropWhile (\<lambda>y. y = x) xs") auto
    have "z \<noteq> x" using d(1) hd_dropWhile [of "\<lambda>y. y = x" xs] by auto
    moreover have "sorted (z # zs)"
      using Cons.prems d(1) sorted_dropWhile [of xs "\<lambda>y. y = x"] by simp
    moreover have "x \<le> z"
      using Cons.prems d(1) set_dropWhileD [of z "\<lambda>y. y = x" xs] by auto
    ultimately show False using d(2) by auto
  qed
  then show ?case using Cons by simp
qed

lemma visited_nonempty: "visited ls s \<noteq> []"
  by (cases ls) auto

lemma hd_visited: "hd (visited ls s) = s"
  by (cases ls) auto

lemma follows_edges_Cons:
  "follows_edges (x # ys) = (ys = [] \<or> lifecycle_edge x (hd ys) \<and> follows_edges ys)"
  by (cases ys) auto

lemma run_consistent:
  assumes "consistent a s" "balanced ls s" "\<forall>x \<in> set (visited ls s). held x a < 2147483643"
  shows "(\<forall>x \<in> set (visited ls s). consistent a x) \<and>
         follows_edges (trajectory a ls s) \<and>
         sorted (map rank (trajectory a ls s))"
  using assms
proof (induction ls arbitrary: s)
  case Nil
  then show ?case by (simp add: trajectory_def)
next
  case (Cons l ls)
  show ?case
  proof (cases "step l s")
    case None
    then show ?thesis using Cons.prems by (simp add: trajectory_def)
  next
    case (Some s')
    have h: "held s' a < 2147483643"
      using Cons.prems(3) Some visited_nonempty [of ls s'] hd_visited [of ls s']
      by (cases "visited ls s'") auto
    have r: "releasable l s" and b: "balanced ls s'" using Cons.prems(2) Some by auto
    have c': "consistent a s'" using consistent_step [OF Cons.prems(1) Some r h] .
    have m: "counter_move (mem (ks s) a) (mem (ks s') a)"
      using move_step [OF Cons.prems(1) Some r h] .
    have e: "lifecycle_edge (lifecycle_of (mem (ks s) a)) (lifecycle_of (mem (ks s') a))"
      using m by (rule move_follows_edge)
    have IH: "(\<forall>x \<in> set (visited ls s'). consistent a x) \<and>
         follows_edges (trajectory a ls s') \<and> sorted (map rank (trajectory a ls s'))"
      using Cons.IH [OF c' b] Cons.prems(3) Some by simp
    have t: "trajectory a (l # ls) s = lifecycle_of (mem (ks s) a) # trajectory a ls s'"
      using Some by (simp add: trajectory_def)
    have hd: "hd (trajectory a ls s') = lifecycle_of (mem (ks s') a)"
      using visited_nonempty [of ls s'] hd_visited [of ls s']
      by (simp add: trajectory_def hd_map)
    have ne: "trajectory a ls s' \<noteq> []"
      using visited_nonempty [of ls s'] by (simp add: trajectory_def)
    have le: "\<forall>y \<in> set (map rank (trajectory a ls s')). rank (lifecycle_of (mem (ks s) a)) \<le> y"
    proof -
      obtain z zs where zs: "map rank (trajectory a ls s') = z # zs"
        using ne by (cases "map rank (trajectory a ls s')") auto
      then have "z = rank (lifecycle_of (mem (ks s') a))"
        using hd ne by (cases "trajectory a ls s'") auto
      then have "rank (lifecycle_of (mem (ks s) a)) \<le> z" using e by (simp add: edge_rank)
      moreover have "\<forall>y \<in> set zs. z \<le> y" using IH zs by simp
      ultimately show ?thesis using zs by auto
    qed
    show ?thesis
      using IH Cons.prems(1) Some e hd ne le
      by (simp add: t follows_edges_Cons)
  qed
qed

subsection \<open>Every drain call follows the script\<close>

lemma script_invoke:
  assumes "invoke t c s = Some s'"
  shows "script x (pc (threads s' t)) (did (threads s' t))"
proof (cases c)
  case (Acquire bo)
  then show ?thesis using assms
    by (cases bo) (auto simp: atomic_inc_unless_negative_def split: if_splits)
next
  case (Release bo w)
  then show ?thesis using assms
    by (cases bo) (auto simp: atomic_dec_return_def split: if_splits option.splits)
next
  case (Drain b w f)
  then show ?thesis using assms by (auto split: if_splits)
qed (use assms in \<open>auto simp: atomic_cmpxchg_def split: if_splits\<close>)

lemma move_keeps_script:
  assumes "counter_move c c'" "script c p d"
  shows "script c' p d"
proof -
  have "c' = BUS1_ACTIVE_DRAINED" if "c = BUS1_ACTIVE_DRAINED"
    using assms(1) that unfolding counter_move_def by (auto simp: as_sint)
  then show ?thesis using assms(2)
    by (cases "(c, p, d)" rule: script.cases) (auto split: if_splits)
qed

lemma script_resume:
  assumes "script (mem (ks s) a) (pc (threads s t)) (did (threads s t))"
    "drain_knows a (mem (ks s) a) (pc (threads s t))"
    "resume t (pc (threads s t)) s = Some s'"
    "draining (pc (threads s' t)) = Some a"
  shows "script (mem (ks s') a) (pc (threads s' t)) (did (threads s' t))"
proof (cases "pc (threads s t)")
  case (Drain_wait b w f st)
  then show ?thesis using assms
    by (auto simp: atomic_read_def split: option.splits)
next
  case (Drain_wait_drained b w f v st)
  then show ?thesis using assms
    by (auto simp: atomic_read_def split: option.splits dest: wait_event_over)
next
  case (Drain_cmpxchg1 b w f)
  then show ?thesis using assms
    by (auto simp: atomic_cmpxchg_def drained_by_def split: if_splits)
next
  case (Drain_cmpxchg2 b w f)
  then show ?thesis using assms
    by (auto simp: atomic_cmpxchg_def drained_by_def split: if_splits)
next
  case (Drain_release b w f v)
  then show ?thesis using assms by (cases f) auto
qed (use assms in \<open>auto simp: atomic_cmpxchg_def atomic_read_def split: if_splits\<close>)

lemma draining_resume:
  "resume t p s = Some s' \<Longrightarrow> draining (pc (threads s' t)) = Some a \<Longrightarrow> draining p = Some a"
  by (cases "(t, p, s)" rule: resume.cases) (auto split: prod.splits if_splits option.splits)

lemma script_spurious:
  assumes "spurious t (pc (threads s t)) s = Some s'"
  shows "script c (pc (threads s' u)) (did (threads s' u)) =
           script c (pc (threads s u)) (did (threads s u)) \<and>
         draining (pc (threads s' u)) = draining (pc (threads s u))"
  using assms by (rule spurious_cases) auto

lemma scripted_step:
  assumes "scripted a s" "knows a s" "step l s = Some s'"
    "counter_move (mem (ks s) a) (mem (ks s') a)"
  shows "scripted a s'"
  unfolding scripted_def
proof (intro allI impI)
  fix u
  assume d: "draining (pc (threads s' u)) = Some a"
  have k: "\<And>v. draining (pc (threads s v)) = Some a \<Longrightarrow>
      script (mem (ks s) a) (pc (threads s v)) (did (threads s v))"
    using assms(1) by (simp add: scripted_def)
  have n: "drain_knows a (mem (ks s) a) (pc (threads s u))"
    using assms(2) by (simp add: knows_def)
  show "script (mem (ks s') a) (pc (threads s' u)) (did (threads s' u))"
  proof (cases "u = actor l")
    case True
    show ?thesis
    proof (cases l)
      case (Invoke t c)
      then show ?thesis using True assms(3) script_invoke [of u c s s']
        by (auto split: if_splits)
    next
      case (Resume t)
      then have r: "resume u (pc (threads s u)) s = Some s'" using True assms(3) by simp
      from draining_resume [OF r d]
      have "script (mem (ks s) a) (pc (threads s u)) (did (threads s u))"
        by (rule k)
      then show ?thesis using n r d by (rule script_resume)
    next
      case (Spurious t)
      then have r: "spurious t (pc (threads s t)) s = Some s'" using assms(3) by simp
      show ?thesis
        using script_spurious [OF r, of "mem (ks s) a" u] k [of u] d spurious_same [OF r]
        by simp
    qed
  next
    case False
    then have "threads s' u = threads s u" using assms(3) by (simp add: others_step)
    then show ?thesis using k [of u] d assms(4) by (simp add: move_keeps_script)
  qed
qed

lemma scripted_boot: "scripted a (boot a k)"
  by (simp add: scripted_def boot_def quiet_def)

subsection \<open>The object is marked and its callback called at most once\<close>

lemma marks_invoke:
  assumes "counted a s" "invoke t c s = Some s'" "releasable (Invoke t c) s"
  shows "marks a s' = marks a s \<and> released (mem (ks s') a) = released (mem (ks s) a)"
proof (cases c)
  case (Activate b)
  then show ?thesis using assms
    by (auto simp: marks_def released_def atomic_cmpxchg_def as_sint split: if_splits)
next
  case (Acquire bo)
  then show ?thesis using assms
    by (cases bo)
      (auto simp: marks_def released_def counted_def Let_def atomic_inc_unless_negative_def
        as_sint sint_inc split: if_splits)
next
  case (Release bo w)
  show ?thesis
  proof (cases bo)
    case None
    then show ?thesis using assms Release by (auto simp: marks_def)
  next
    case (Some b)
    note e = release_effect [OF assms(2) [unfolded Release Some]]
    have "b = a \<Longrightarrow> 0 < held s a" using assms(3) Release Some by simp
    then show ?thesis using assms(1) e
      by (auto simp: marks_def released_def counted_def Let_def as_sint sint_dec
          split: if_splits)
  qed
next
  case (Deactivate b)
  then show ?thesis using assms
    by (auto simp: marks_def released_def atomic_cmpxchg_def as_sint split: if_splits)
next
  case (Drain b w f)
  then show ?thesis using assms
    by (auto simp: marks_def split: if_splits)
qed

lemma not_marking_invoke:
  "invoke t c s = Some s' \<Longrightarrow> \<not> marking a (pc (threads s' t))"
  by (cases "(t, c, s)" rule: invoke.cases) (auto split: prod.splits if_splits option.splits)

lemma released_once_invoke:
  assumes "counted a s" "released_once a s" "invoke t c s = Some s'"
    "releasable (Invoke t c) s"
  shows "released_once a s'"
proof -
  note m = marks_invoke [OF assms(1,3,4)]
  have p: "pc (threads s' u) = Drain_release a w f v \<Longrightarrow>
      pc (threads s u) = Drain_release a w f v" for u w f v
    using others_invoke [OF assms(3), of u] not_marking_invoke [OF assms(3), of a]
    by (cases "u = t") auto
  show ?thesis
    using assms(2) m p unfolding released_once_def by (simp split: if_splits) blast+
qed


lemma released_once_resume:
  assumes "consistent a s" "released_once a s" "resume t (pc (threads s t)) s = Some s'"
  shows "released_once a s'"
proof -
  have c: "counted a s" and w: "single_winner a s"
    using assms(1) by (simp_all add: consistent_def)
  have w1: "\<And>u. winner_on a (pc (threads s u)) \<Longrightarrow> mem (ks s) a = BUS1_ACTIVE_RELEASE"
    and w2: "\<And>u v. winner_on a (pc (threads s u)) \<Longrightarrow> winner_on a (pc (threads s v)) \<Longrightarrow> u = v"
    using w unfolding single_winner_def by blast+
  note o = others_resume [OF assms(3)]
  have nobody: "\<not> released (mem (ks s) a) \<Longrightarrow> pc (threads s u) \<noteq> Drain_release a x f v"
    for u x f v
    using w1 [of u] by (auto simp: released_def)
  show ?thesis
  proof (cases "pc (threads s t)")
    case (Deactivate_loop b v)
    have m: "marks a s' = marks a s \<and> released (mem (ks s') a) = released (mem (ks s) a)"
      using Deactivate_loop assms(3)
      by (auto simp: marks_def released_def atomic_cmpxchg_def as_sint sint_add_BIAS
          split: if_splits)
    have p: "pc (threads s' u) = Drain_release a x f y \<Longrightarrow>
        pc (threads s u) = Drain_release a x f y" for u x f y
      using o [of u] Deactivate_loop assms(3)
      by (cases "u = t") (auto simp: atomic_cmpxchg_def split: if_splits)
    show ?thesis
      using assms(2) m p unfolding released_once_def by (simp split: if_splits) blast+
  next
    case (Drain_cmpxchg1 b x f)
    show ?thesis
    proof (cases "b = a \<and> mem (ks s) a = BUS1_ACTIVE_RELEASE_DIRECT")
      case True
      then have "marks a s = []" using assms(2)
        by (auto simp: released_once_def released_def as_sint split: if_splits)
      then show ?thesis using True Drain_cmpxchg1 assms(3)
        by (auto simp: released_once_def released_def marks_def atomic_cmpxchg_def)
    next
      case False
      then have m: "marks a s' = marks a s \<and> mem (ks s') a = mem (ks s) a"
        using Drain_cmpxchg1 assms(3)
        by (auto simp: marks_def atomic_cmpxchg_def split: if_splits)
      have p: "pc (threads s' u) = Drain_release a z g y \<Longrightarrow>
          pc (threads s u) = Drain_release a z g y" for u z g y
        using o [of u] False Drain_cmpxchg1 assms(3)
        by (cases "u = t") (auto simp: atomic_cmpxchg_def split: if_splits)
      show ?thesis
        using assms(2) m p unfolding released_once_def by (simp split: if_splits) blast+
    qed
  next
    case (Drain_cmpxchg2 b x f)
    have kt: "drain_knows a (mem (ks s) a) (pc (threads s t))"
      using assms(1) by (simp add: consistent_def knows_def)
    show ?thesis
    proof (cases "b = a \<and> mem (ks s) a = BUS1_ACTIVE_BIAS")
      case True
      then have "marks a s = []" using assms(2)
        by (auto simp: released_once_def released_def as_sint split: if_splits)
      then show ?thesis using True Drain_cmpxchg2 assms(3)
        by (auto simp: released_once_def released_def marks_def atomic_cmpxchg_def)
    next
      case False
      then have m: "marks a s' = marks a s \<and> mem (ks s') a = mem (ks s) a"
        using Drain_cmpxchg2 assms(3)
        by (auto simp: marks_def atomic_cmpxchg_def split: if_splits)
      have p: "pc (threads s' u) = Drain_release a z g y \<Longrightarrow>
          pc (threads s u) = Drain_release a z g y" for u z g y
        using o [of u] False Drain_cmpxchg2 assms(3) kt
        by (cases "u = t") (auto simp: atomic_cmpxchg_def drained_by_def split: if_splits)
      show ?thesis
        using assms(2) m p unfolding released_once_def by (simp split: if_splits) blast+
    qed
  next
    case (Drain_release b x f v)
    show ?thesis
    proof (cases "b = a")
      case True
      then have r: "mem (ks s) a = BUS1_ACTIVE_RELEASE"
        using w1 [of t] Drain_release by simp
      then have m: "marks a s = [STORE a BUS1_ACTIVE_RELEASE]"
        using assms(2) Drain_release True
        by (auto simp: released_once_def released_def split: if_splits)
      have alone: "pc (threads s' u) \<noteq> Drain_release a z g y" for u z g y
        using o [of u] w2 [of u t] Drain_release True assms(3)
        by (cases "u = t") auto
      show ?thesis using m r alone Drain_release True assms(3)
        by (cases f) (auto simp: released_once_def released_def marks_def)
    next
      case False
      then have m: "marks a s' = marks a s \<and> mem (ks s') a = mem (ks s) a"
        using Drain_release assms(3) by (cases f) (auto simp: marks_def)
      have p: "pc (threads s' u) = Drain_release a z g y \<Longrightarrow>
          pc (threads s u) = Drain_release a z g y" for u z g y
        using o [of u] False Drain_release assms(3)
        by (cases "u = t") auto
      show ?thesis
        using assms(2) m p unfolding released_once_def by (simp split: if_splits) blast+
    qed
  next
    case (Drain_set b x f v)
    have r: "b = a \<Longrightarrow> mem (ks s) a = BUS1_ACTIVE_RELEASE"
      using w1 [of t] Drain_set by simp
    have m: "marks a s' = marks a s \<and> released (mem (ks s') a) = released (mem (ks s) a)"
      using Drain_set assms(3) r
      by (cases "b = a") (auto simp: marks_def released_def as_sint)
    have p: "pc (threads s' u) = Drain_release a z g y \<Longrightarrow>
        pc (threads s u) = Drain_release a z g y" for u z g y
      using o [of u] Drain_set assms(3)
      by (cases "u = t") auto
    show ?thesis
      using assms(2) m p unfolding released_once_def by (simp split: if_splits) blast+
  next
    case Idle
    then show ?thesis using assms(3) by simp
  next
    case (Returned c r)
    then show ?thesis using assms(3) by simp
  next
    case (Release_wake b q)
    have m: "marks a s' = marks a s \<and> mem (ks s') a = mem (ks s) a"
      using Release_wake assms(3) by (auto simp: marks_def)
    have p: "pc (threads s' u) = Drain_release a z g y \<Longrightarrow>
        pc (threads s u) = Drain_release a z g y" for u z g y
      using o [of u] Release_wake assms(3) by (cases "u = t") auto
    show ?thesis
      using assms(2) m p unfolding released_once_def by (simp split: if_splits) blast+
  next
    case (Deactivate_read b)
    have m: "marks a s' = marks a s \<and> mem (ks s') a = mem (ks s) a"
      using Deactivate_read assms(3) by (auto simp: marks_def)
    have p: "pc (threads s' u) = Drain_release a z g y \<Longrightarrow>
        pc (threads s u) = Drain_release a z g y" for u z g y
      using o [of u] Deactivate_read assms(3) by (cases "u = t") auto
    show ?thesis
      using assms(2) m p unfolding released_once_def by (simp split: if_splits) blast+
  next
    case (Drain_wait b x f st)
    have m: "marks a s' = marks a s \<and> mem (ks s') a = mem (ks s) a"
      using Drain_wait assms(3) by (auto simp: marks_def split: if_splits option.splits)
    have p: "pc (threads s' u) = Drain_release a z g y \<Longrightarrow>
        pc (threads s u) = Drain_release a z g y" for u z g y
      using o [of u] Drain_wait assms(3)
      by (cases "u = t") (auto split: if_splits option.splits)
    show ?thesis
      using assms(2) m p unfolding released_once_def by (simp split: if_splits) blast+
  next
    case (Drain_wake_all b x f v)
    have m: "marks a s' = marks a s \<and> mem (ks s') a = mem (ks s) a"
      using Drain_wake_all assms(3) by (auto simp: marks_def)
    have p: "pc (threads s' u) = Drain_release a z g y \<Longrightarrow>
        pc (threads s u) = Drain_release a z g y" for u z g y
      using o [of u] Drain_wake_all assms(3) by (cases "u = t") auto
    show ?thesis
      using assms(2) m p unfolding released_once_def by (simp split: if_splits) blast+
  next
    case (Drain_wait_drained b x f v st)
    have m: "marks a s' = marks a s \<and> mem (ks s') a = mem (ks s) a"
      using Drain_wait_drained assms(3) by (auto simp: marks_def split: if_splits option.splits)
    have p: "pc (threads s' u) = Drain_release a z g y \<Longrightarrow>
        pc (threads s u) = Drain_release a z g y" for u z g y
      using o [of u] Drain_wait_drained assms(3)
      by (cases "u = t") (auto split: if_splits option.splits)
    show ?thesis
      using assms(2) m p unfolding released_once_def by (simp split: if_splits) blast+
  qed
qed

lemma released_once_step:
  assumes "consistent a s" "released_once a s" "step l s = Some s'" "releasable l s"
  shows "released_once a s'"
proof (cases l)
  case (Invoke t c)
  then show ?thesis using assms released_once_invoke [of a s t c s']
    by (auto simp: consistent_def split: if_splits)
next
  case (Resume t)
  then show ?thesis using assms released_once_resume [of a s t s'] by simp
next
  case (Spurious t)
  then have r: "spurious t (pc (threads s t)) s = Some s'" using assms(3) by simp
  have m: "marks a s' = marks a s \<and> mem (ks s') a = mem (ks s) a"
    by (simp add: marks_def spurious_same [OF r])
  have p: "pc (threads s' u) = Drain_release a z g y \<Longrightarrow>
      pc (threads s u) = Drain_release a z g y" for u z g y
    using r by (rule spurious_cases) (auto split: if_splits)
  show ?thesis
    using assms(2) m p unfolding released_once_def by (simp split: if_splits) blast+
qed

lemma released_once_boot:
  "filter (marks_release a) (klog k) = [] \<Longrightarrow> released_once a (boot a k)"
  by (simp add: released_once_def released_def marks_def boot_def quiet_def
      bus1_active_init_def as_sint)

subsection \<open>While the object is marked, the marking thread is on its way\<close>

lemma marking_invoke:
  assumes "counted a s" "invoke t c s = Some s'" "releasable (Invoke t c) s"
    "mem (ks s') a = BUS1_ACTIVE_RELEASE"
  shows "mem (ks s) a = BUS1_ACTIVE_RELEASE"
proof -
  from marks_invoke [OF assms(1,2,3)]
  have r: "released (mem (ks s') a) = released (mem (ks s) a)" by simp
  show ?thesis
  proof (cases c)
    case (Activate b)
    then show ?thesis using assms(2,4)
      by (auto simp: atomic_cmpxchg_def as_sint split: if_splits)
  next
    case (Acquire bo)
    then show ?thesis using assms(1,2,4) r
      by (cases bo)
        (auto simp: atomic_inc_unless_negative_def released_def as_sint split: if_splits)
  next
    case (Release bo w)
    show ?thesis
    proof (cases bo)
      case None
      then show ?thesis using assms(2,4) Release by auto
    next
      case (Some b)
      note e = release_effect [OF assms(2) [unfolded Release Some]]
      have "b = a \<Longrightarrow> 0 < held s a" using assms(3) Release Some by simp
      then show ?thesis using assms(1,4) e
        by (auto simp: counted_def Let_def as_sint sint_dec split: if_splits)
    qed
  next
    case (Deactivate b)
    then show ?thesis using assms(2,4)
      by (auto simp: atomic_cmpxchg_def as_sint split: if_splits)
  next
    case (Drain b w f)
    then show ?thesis using assms(2,4) by (auto split: if_splits)
  qed
qed

lemma marking_resume:
  assumes "resume t (pc (threads s t)) s = Some s'" "mem (ks s') a = BUS1_ACTIVE_RELEASE"
  shows "(mem (ks s) a = BUS1_ACTIVE_RELEASE \<and> \<not> winner_on a (pc (threads s t))) \<or>
         winner_on a (pc (threads s' t))"
proof (cases "pc (threads s t)")
  case (Deactivate_loop b v)
  then show ?thesis using assms
    by (auto simp: atomic_cmpxchg_def as_sint sint_add_BIAS split: if_splits)
next
  case (Drain_cmpxchg1 b w f)
  then show ?thesis using assms
    by (auto simp: atomic_cmpxchg_def drained_by_def split: if_splits)
next
  case (Drain_cmpxchg2 b w f)
  then show ?thesis using assms
    by (auto simp: atomic_cmpxchg_def drained_by_def split: if_splits)
next
  case (Drain_set b w f v)
  then show ?thesis using assms by (auto simp: as_sint split: if_splits)
qed (use assms in \<open>auto simp: atomic_read_def split: if_splits option.splits\<close>)

lemma marked_step:
  assumes "consistent a s" "marked a s" "step l s = Some s'" "releasable l s"
  shows "marked a s'"
  unfolding marked_def
proof
  assume m: "mem (ks s') a = BUS1_ACTIVE_RELEASE"
  have c: "counted a s" using assms(1) by (simp add: consistent_def)
  show "\<exists>t. winner_on a (pc (threads s' t))"
  proof (cases l)
    case (Invoke t c)
    then have i: "invoke t c s = Some s'" and b: "between_calls (pc (threads s t))"
      using assms(3) by (auto split: if_splits)
    have "mem (ks s) a = BUS1_ACTIVE_RELEASE"
      using marking_invoke [OF c i] assms(4) Invoke m by simp
    then obtain u where u: "winner_on a (pc (threads s u))"
      using assms(2) by (auto simp: marked_def)
    then have "u \<noteq> t" using b by (cases "pc (threads s t)") auto
    then have "winner_on a (pc (threads s' u))" using u others_invoke [OF i, of u] by simp
    then show ?thesis ..
  next
    case (Resume t)
    then have r: "resume t (pc (threads s t)) s = Some s'" using assms(3) by simp
    from marking_resume [OF r m] show ?thesis
    proof
      assume o: "mem (ks s) a = BUS1_ACTIVE_RELEASE \<and> \<not> winner_on a (pc (threads s t))"
      then obtain u where u: "winner_on a (pc (threads s u))"
        using assms(2) by (auto simp: marked_def)
      then have "u \<noteq> t" using o by auto
      then have "winner_on a (pc (threads s' u))" using u others_resume [OF r, of u] by simp
      then show ?thesis ..
    next
      assume "winner_on a (pc (threads s' t))"
      then show ?thesis ..
    qed
  next
    case (Spurious t)
    then have r: "spurious t (pc (threads s t)) s = Some s'" using assms(3) by simp
    have "winner_on a (pc (threads s' u)) = winner_on a (pc (threads s u))" for u
      using r by (rule spurious_cases) auto
    then show ?thesis using assms(2) m by (simp add: marked_def spurious_same [OF r])
  qed
qed


subsection \<open>Exactly one thread marks the object, and it alone returns true\<close>

lemma trues_goto: "trues a (goto t p k s) = trues a s + length (filter (returned_true a) (returned t p))"
  by (simp add: trues_def)

lemma trues_enter: "trues a (enter t p k s) = trues a s + length (filter (returned_true a) (returned t p))"
  by (simp add: trues_def)

lemma tally_keep:
  assumes "tally a s" "released (mem (ks s') a) = released (mem (ks s) a)"
    "\<And>u. marking a (pc (threads s' u)) = marking a (pc (threads s u))"
    "trues a s' = trues a s"
  shows "tally a s'"
  using assms unfolding tally_def by auto

lemma trues_held [simp]: "trues a (s\<lparr>held := h\<rparr>) = trues a s"
  by (simp add: trues_def)

lemma trues_invoke: "invoke t c s = Some s' \<Longrightarrow> trues a s' = trues a s"
  by (cases "(t, c, s)" rule: invoke.cases)
    (auto simp: trues_enter split: prod.splits if_splits option.splits)

lemma tally_invoke:
  assumes "counted a s" "tally a s" "between_calls (pc (threads s t))"
    "invoke t c s = Some s'" "releasable (Invoke t c) s"
  shows "tally a s'"
proof (rule tally_keep [OF assms(2)])
  show "released (mem (ks s') a) = released (mem (ks s) a)"
    using marks_invoke [OF assms(1,4,5)] by simp
  show "marking a (pc (threads s' u)) = marking a (pc (threads s u))" for u
    using others_invoke [OF assms(4), of u] not_marking_invoke [OF assms(4), of a] assms(3)
    by (cases "u = t"; cases "pc (threads s t)") auto
  show "trues a s' = trues a s" using assms(4) by (rule trues_invoke)
qed

lemma tally_spurious:
  assumes "tally a s" "spurious t (pc (threads s t)) s = Some s'"
  shows "tally a s'"
proof (rule tally_keep [OF assms(1)])
  show "released (mem (ks s') a) = released (mem (ks s) a)"
    by (simp add: spurious_same [OF assms(2)])
  show "marking a (pc (threads s' u)) = marking a (pc (threads s u))" for u
    using assms(2) by (rule spurious_cases) auto
  show "trues a s' = trues a s" by (simp add: trues_def spurious_same [OF assms(2)])
qed

lemma tally_marked:
  assumes "tally a s" "\<not> released (mem (ks s) a)" "released (mem (ks s') a)"
    "marking a (pc (threads s' t))" "\<And>u. u \<noteq> t \<Longrightarrow> threads s' u = threads s u"
    "trues a s' = trues a s"
  shows "tally a s'"
proof -
  have none: "\<not> marking a (pc (threads s u))" for u
    using assms(1,2) by (auto simp: tally_def)
  have zero: "trues a s = 0"
    using assms(1,2) by (auto simp: tally_def)
  have only: "marking a (pc (threads s' u)) \<Longrightarrow> u = t" for u
    using none [of u] assms(5) [of u] by (cases "u = t") auto
  show ?thesis
    unfolding tally_def using assms(3,4,6) zero only by auto
qed

lemma tally_returned:
  assumes "tally a s" "marking a (pc (threads s t))" "released (mem (ks s') a)"
    "\<not> marking a (pc (threads s' t))" "\<And>u. u \<noteq> t \<Longrightarrow> threads s' u = threads s u"
    "trues a s' = Suc (trues a s)"
  shows "tally a s'"
proof -
  have one: "marking a (pc (threads s u)) \<Longrightarrow> u = t" for u
    using assms(1,2) by (auto simp: tally_def)
  have rel: "released (mem (ks s) a)" and zero: "trues a s = 0"
    using assms(1,2) by (auto simp: tally_def split: if_splits)
  have none: "\<not> marking a (pc (threads s' u))" for u
    using one [of u] assms(4) assms(5) [of u] by (cases "u = t") auto
  show ?thesis
    unfolding tally_def using assms(3,6) zero none by auto
qed

lemma tally_resume:
  assumes "consistent a s" "scripted a s" "tally a s" "resume t (pc (threads s t)) s = Some s'"
  shows "tally a s'"
proof -
  have w: "single_winner a s" and k: "knows a s"
    using assms(1) by (simp_all add: consistent_def)
  have kt: "drain_knows a (mem (ks s) a) (pc (threads s t))"
    using k by (simp add: knows_def)
  have st: "draining (pc (threads s t)) = Some a \<Longrightarrow>
      script (mem (ks s) a) (pc (threads s t)) (did (threads s t))"
    using assms(2) by (simp add: scripted_def)
  have w1: "\<And>u. winner_on a (pc (threads s u)) \<Longrightarrow> mem (ks s) a = BUS1_ACTIVE_RELEASE"
    using w unfolding single_winner_def by blast
  note o = others_resume [OF assms(4)]
  have keep: "tally a s'"
    if "released (mem (ks s') a) = released (mem (ks s) a)"
      "marking a (pc (threads s' t)) = marking a (pc (threads s t))"
      "trues a s' = trues a s"
  proof (rule tally_keep [OF assms(3) that(1) _ that(3)])
    show "marking a (pc (threads s' u)) = marking a (pc (threads s u))" for u
      using o [of u] that(2) by (cases "u = t") auto
  qed
  show ?thesis
  proof (cases "pc (threads s t)")
    case Idle
    then show ?thesis using assms(4) by simp
  next
    case (Returned c r)
    then show ?thesis using assms(4) by simp
  next
    case (Release_wake b q)
    then show ?thesis using assms(4) by (intro keep) (auto simp: trues_goto)
  next
    case (Deactivate_read b)
    then show ?thesis using assms(4) by (intro keep) (auto simp: trues_goto)
  next
    case (Deactivate_loop b v)
    then show ?thesis using assms(4)
      by (intro keep)
        (auto simp: trues_goto released_def atomic_cmpxchg_def as_sint sint_add_BIAS
          split: if_splits)
  next
    case (Drain_wait b x f st)
    then show ?thesis using assms(4)
      by (intro keep) (auto simp: trues_goto split: option.splits)
  next
    case (Drain_cmpxchg1 b x f)
    show ?thesis
    proof (cases "b = a \<and> mem (ks s) a = BUS1_ACTIVE_RELEASE_DIRECT")
      case True
      show ?thesis
      proof (rule tally_marked [OF assms(3), of s' t])
        show "\<not> released (mem (ks s) a)" using True by (simp add: released_def as_sint)
        show "released (mem (ks s') a)" "marking a (pc (threads s' t))" "trues a s' = trues a s"
          using True Drain_cmpxchg1 assms(4)
          by (auto simp: released_def atomic_cmpxchg_def drained_by_def trues_goto)
        show "u \<noteq> t \<Longrightarrow> threads s' u = threads s u" for u using o [of u] by simp
      qed
    next
      case False
      then show ?thesis using Drain_cmpxchg1 assms(4)
        by (intro keep) (auto simp: trues_goto atomic_cmpxchg_def drained_by_def split: if_splits)
    qed
  next
    case (Drain_cmpxchg2 b x f)
    show ?thesis
    proof (cases "b = a \<and> mem (ks s) a = BUS1_ACTIVE_BIAS")
      case True
      show ?thesis
      proof (rule tally_marked [OF assms(3), of s' t])
        show "\<not> released (mem (ks s) a)" using True by (simp add: released_def as_sint)
        show "released (mem (ks s') a)" "marking a (pc (threads s' t))" "trues a s' = trues a s"
          using True Drain_cmpxchg2 assms(4)
          by (auto simp: released_def atomic_cmpxchg_def drained_by_def trues_goto)
        show "u \<noteq> t \<Longrightarrow> threads s' u = threads s u" for u using o [of u] by simp
      qed
    next
      case False
      then show ?thesis using Drain_cmpxchg2 assms(4) kt
        by (intro keep) (auto simp: trues_goto atomic_cmpxchg_def drained_by_def split: if_splits)
    qed
  next
    case (Drain_release b x f v)
    then show ?thesis using assms(4)
      by (intro keep) (auto simp: trues_goto split: option.splits)
  next
    case (Drain_set b x f v)
    then have "b = a \<Longrightarrow> mem (ks s) a = BUS1_ACTIVE_RELEASE" using w1 [of t] by simp
    then show ?thesis using Drain_set assms(4)
      by (intro keep) (auto simp: trues_goto released_def split: if_splits)
  next
    case (Drain_wake_all b x f v)
    show ?thesis
    proof (cases "b = a")
      case True
      then have sc: "drained_by v" "mem (ks s) a = BUS1_ACTIVE_DRAINED"
        using st Drain_wake_all by simp_all
      show ?thesis
      proof (rule tally_returned [OF assms(3), of t s'])
        show "marking a (pc (threads s t))" using True Drain_wake_all by simp
        show "released (mem (ks s') a)" "\<not> marking a (pc (threads s' t))"
          "trues a s' = Suc (trues a s)"
          using True Drain_wake_all assms(4) sc by (auto simp: released_def trues_goto)
        show "u \<noteq> t \<Longrightarrow> threads s' u = threads s u" for u using o [of u] by simp
      qed
    next
      case False
      then show ?thesis using Drain_wake_all assms(4)
        by (intro keep) (auto simp: trues_goto)
    qed
  next
    case (Drain_wait_drained b x f v st)
    have "b = a \<Longrightarrow> \<not> drained_by v" using st Drain_wait_drained by simp
    then show ?thesis using Drain_wait_drained assms(4)
      by (intro keep) (auto simp: trues_goto split: option.splits)
  qed
qed

lemma tally_step:
  assumes "consistent a s" "scripted a s" "tally a s" "step l s = Some s'" "releasable l s"
  shows "tally a s'"
proof (cases l)
  case (Invoke t c)
  then show ?thesis using assms tally_invoke [of a s t c s']
    by (auto simp: consistent_def split: if_splits)
next
  case (Resume t)
  then show ?thesis using assms tally_resume [of a s t s'] by simp
next
  case (Spurious t)
  then show ?thesis using assms tally_spurious [of a s t s'] by simp
qed

lemma tally_boot: "tally a (boot a k)"
  by (simp add: tally_def trues_def released_def boot_def quiet_def bus1_active_init_def as_sint)
subsection \<open>All of it along a run\<close>

lemma sound_step:
  assumes "sound a s" "step l s = Some s'" "releasable l s" "held s' a < 2147483643"
  shows "sound a s'"
proof -
  have c: "consistent a s" and sc: "scripted a s" and r: "released_once a s"
    and m: "marked a s" and ta: "tally a s"
    using assms(1) by (simp_all add: sound_def)
  have k: "knows a s" using c by (simp add: consistent_def)
  show ?thesis
    using consistent_step [OF c assms(2,3,4)]
      scripted_step [OF sc k assms(2) move_step [OF c assms(2,3,4)]]
      released_once_step [OF c r assms(2,3)] marked_step [OF c m assms(2,3)]
      tally_step [OF c sc ta assms(2,3)]
    by (simp add: sound_def)
qed

lemma marked_boot: "marked a (boot a k)"
  by (simp add: marked_def boot_def quiet_def bus1_active_init_def as_sint)

lemma sound_boot: "filter (marks_release a) (klog k) = [] \<Longrightarrow> sound a (boot a k)"
  by (simp add: sound_def consistent_boot scripted_boot released_once_boot marked_boot
      tally_boot)

lemma run_sound:
  assumes "sound a s" "balanced ls s" "\<forall>x \<in> set (visited ls s). held x a < 2147483643"
  shows "\<forall>x \<in> set (visited ls s). sound a x"
  using assms
proof (induction ls arbitrary: s)
  case Nil
  then show ?case by simp
next
  case (Cons l ls)
  show ?case
  proof (cases "step l s")
    case None
    then show ?thesis using Cons.prems by simp
  next
    case (Some s')
    have h: "held s' a < 2147483643"
      using Cons.prems(3) Some visited_nonempty [of ls s'] hd_visited [of ls s']
      by (cases "visited ls s'") auto
    have r: "releasable l s" and b: "balanced ls s'" using Cons.prems(2) Some by auto
    have "sound a s'" using sound_step [OF Cons.prems(1) Some r h] .
    then have "\<forall>x \<in> set (visited ls s'). sound a x"
      using Cons.IH b Cons.prems(3) Some by simp
    then show ?thesis using Cons.prems(1) Some by simp
  qed
qed

lemma released_once_marks:
  "released_once a s \<Longrightarrow>
   marks a s = [] \<or> marks a s = [STORE a BUS1_ACTIVE_RELEASE] \<or>
   (\<exists>g. marks a s = [STORE a BUS1_ACTIVE_RELEASE, CALL g a])"
  by (auto simp: released_once_def split: if_splits)

subsection \<open>One drain call on its own\<close>

lemma drain_marks:
  assumes "mem s a = BUS1_ACTIVE_RELEASE_DIRECT \<or> mem s a = BUS1_ACTIVE_BIAS"
  shows "bus1_active_drain a w f s =
     Some (True, s\<lparr>mem := (mem s)(a := BUS1_ACTIVE_DRAINED),
                    klog := klog s @ STORE a BUS1_ACTIVE_RELEASE # callback_events f a @
                      [STORE a BUS1_ACTIVE_DRAINED, WAKE_UP_ALL w]\<rparr>)"
  using assms
  by (cases f)
    (auto simp: bus1_active_drain_def bus1_active_is_deactivated_def Let_def atomic_read_def
      atomic_cmpxchg_def atomic_set_def emit_def as_sint)

lemma drain_loses:
  assumes "bus1_active_is_deactivated a s" "mem s a \<le>s BUS1_ACTIVE_BIAS"
    "\<not> drained_by (mem s a)"
  shows "bus1_active_drain a w f s =
     (if mem s a = BUS1_ACTIVE_DRAINED then Some (False, s) else None)"
  using assms
  by (auto simp: bus1_active_drain_def Let_def atomic_read_def atomic_cmpxchg_def
      drained_by_def)

subsection \<open>Many acquires in a row\<close>

lemma acquire_many:
  assumes "between_calls (pc (threads s t))" "0 \<le> sint (mem (ks s) a)"
    "sint (mem (ks s) a) + int n \<le> 2147483648"
  shows "\<exists>s'. run (replicate n (Invoke t (Acquire (Some a)))) s = Some s' \<and>
      mem (ks s') a = mem (ks s) a + of_nat n \<and> held s' a = held s a + n \<and>
      between_calls (pc (threads s' t))"
  using assms
proof (induction n arbitrary: s)
  case 0
  then show ?case by simp
next
  case (Suc n)
  let ?c = "mem (ks s) a"
  let ?s1 = "enter t (Returned (Acquire (Some a)) (RPtr (Some a))) (atomic_set a (?c + 1) (ks s))
      (s\<lparr>held := (held s)(a := Suc (held s a))\<rparr>)"
  have st: "step (Invoke t (Acquire (Some a))) s = Some ?s1"
    using Suc.prems(1,2) by (simp add: atomic_inc_unless_negative_def word_sle_eq)
  show ?case
  proof (cases n)
    case 0
    then show ?thesis using st by simp
  next
    case (Suc m)
    have lt: "sint ?c < 2147483647" using Suc.prems(3) Suc by simp
    have "\<exists>s'. run (replicate n (Invoke t (Acquire (Some a)))) ?s1 = Some s' \<and>
        mem (ks s') a = mem (ks ?s1) a + of_nat n \<and> held s' a = held ?s1 a + n \<and>
        between_calls (pc (threads s' t))"
      using Suc.prems(2,3) lt by (intro Suc.IH) (simp_all add: sint_inc)
    then show ?thesis using st by (auto simp: algebra_simps)
  qed
qed

lemma balanced_acquires: "balanced (replicate n (Invoke t (Acquire (Some a)))) s"
  by (induction n arbitrary: s) (auto split: option.splits)


subsection \<open>Once settled, always settled\<close>

lemma held_resume: "resume t p s = Some s' \<Longrightarrow> held s' = held s"
  by (cases "(t, p, s)" rule: resume.cases) (auto split: prod.splits if_splits option.splits)

lemma held_invoke:
  assumes "invoke t c s = Some s'" "releasable (Invoke t c) s" "held s a = 0"
    "sint (mem (ks s) a) < 0"
  shows "held s' a = 0"
proof (cases c)
  case (Acquire bo)
  then show ?thesis using assms
    by (cases bo) (auto simp: atomic_inc_unless_negative_def word_sle_eq split: if_splits)
next
  case (Release bo w)
  then show ?thesis using assms
    by (cases bo) (auto simp: atomic_dec_return_def split: if_splits option.splits)
qed (use assms in \<open>auto simp: atomic_cmpxchg_def split: if_splits\<close>)

lemma settled_step:
  assumes "sound a s" "settled a s" "step l s = Some s'" "releasable l s"
  shows "sound a s' \<and> settled a s'"
proof -
  have neg: "sint (mem (ks s) a) < 0" and h0: "held s a = 0"
    using assms(2) by (auto simp: settled_def released_def as_sint)
  have h: "held s' a = 0"
  proof (cases l)
    case (Invoke t c)
    then show ?thesis using assms(3,4) h0 neg held_invoke [of t c s s' a]
      by (auto split: if_splits)
  next
    case (Resume t)
    then show ?thesis using assms(3) h0 held_resume [of t _ s s'] by simp
  next
    case (Spurious t)
    then show ?thesis using assms(3) h0 spurious_same(2) [of t _ s s'] by simp
  qed
  then have b: "held s' a < 2147483643" by simp
  have c: "consistent a s" using assms(1) by (simp add: sound_def)
  have "counter_move (mem (ks s) a) (mem (ks s') a)"
    using move_step [OF c assms(3,4) b] .
  then have "mem (ks s') a = BUS1_ACTIVE_BIAS \<or> mem (ks s') a = BUS1_ACTIVE_RELEASE_DIRECT \<or>
      released (mem (ks s') a)"
    using assms(2) unfolding counter_move_def settled_def released_def
    by (auto simp: as_sint)
  then show ?thesis using sound_step [OF assms(1,3,4) b] h by (simp add: settled_def)
qed

lemma run_settled:
  assumes "sound a s" "settled a s" "balanced ls s"
  shows "\<forall>x \<in> set (visited ls s). sound a x \<and> settled a x"
  using assms
proof (induction ls arbitrary: s)
  case Nil
  then show ?case by simp
next
  case (Cons l ls)
  show ?case
  proof (cases "step l s")
    case None
    then show ?thesis using Cons.prems by simp
  next
    case (Some s')
    have r: "releasable l s" and b: "balanced ls s'" using Cons.prems(3) Some by auto
    have "sound a s' \<and> settled a s'" using settled_step [OF Cons.prems(1,2) Some r] .
    then have "\<forall>x \<in> set (visited ls s'). sound a x \<and> settled a x"
      using Cons.IH [of s'] b by blast
    then show ?thesis using Cons.prems(1,2) Some by simp
  qed
qed

lemma sound_quiet:
  assumes "mem k a = BUS1_ACTIVE_RELEASE_DIRECT \<or> mem k a = BUS1_ACTIVE_BIAS"
    "filter (marks_release a) (klog k) = []"
  shows "sound a (quiet k) \<and> settled a (quiet k)"
  using assms
  by (auto simp: sound_def consistent_def counted_def single_winner_def knows_def
      scripted_def released_once_def released_def settled_def marks_def quiet_def
      marked_def tally_def trues_def as_sint)

subsection \<open>No wake-up is lost\<close>

lemma log_invoke: "invoke t c s = Some s' \<Longrightarrow> \<exists>es. klog (ks s') = klog (ks s) @ es"
  by (cases "(t, c, s)" rule: invoke.cases)
    (auto simp: atomic_cmpxchg_def atomic_inc_unless_negative_def atomic_dec_return_def
      split: if_splits option.splits)

lemma log_resume: "resume t p s = Some s' \<Longrightarrow> \<exists>es. klog (ks s') = klog (ks s) @ es"
  by (cases "(t, p, s)" rule: resume.cases)
    (auto simp: atomic_cmpxchg_def split: if_splits option.splits)

lemma wakes_step:
  assumes "step l s = Some s'"
  shows "wakes w (klog (ks s)) \<le> wakes w (klog (ks s'))"
proof (cases l)
  case (Invoke t c)
  then show ?thesis using assms log_invoke [of t c s s']
    by (auto simp: wakes_def split: if_splits)
next
  case (Resume t)
  then show ?thesis using assms log_resume [of t "pc (threads s t)" s s']
    by (auto simp: wakes_def)
next
  case (Spurious t)
  then show ?thesis using assms spurious_same(1) [of t "pc (threads s t)" s s'] by simp
qed

lemma rested_mono:
  assumes "rested a w c k p1 p2 p" "drain_knows a c p" "k \<le> k'"
    "c' \<le>s BUS1_ACTIVE_BIAS \<Longrightarrow> \<not> c \<le>s BUS1_ACTIVE_BIAS \<Longrightarrow> c <s 0 \<Longrightarrow> p1'"
    "p1 \<Longrightarrow> \<not> p1' \<Longrightarrow> k < k'"
    "c' = BUS1_ACTIVE_DRAINED \<Longrightarrow> c \<noteq> BUS1_ACTIVE_DRAINED \<Longrightarrow> p2'"
    "p2 \<Longrightarrow> \<not> p2' \<Longrightarrow> k < k'"
  shows "rested a w c' k' p1' p2' p"
proof (cases p)
  case (Drain_wait b q f st)
  then show ?thesis using assms(1,2,3,4,5) by (cases st) auto
next
  case (Drain_wait_drained b q f v st)
  then show ?thesis using assms(1,3,6,7) by (cases st) auto
qed (use assms(1) in auto)

text \<open>The counter comes down to the bias only by the release of the last reference,
  whose thread is then about to call \<open>wake_up\<close>.\<close>

lemma crossing_invoke:
  assumes "invoke t c s = Some s'" "uses a w (Invoke t c)"
    "\<not> mem (ks s) a \<le>s BUS1_ACTIVE_BIAS" "mem (ks s) a <s 0"
    "mem (ks s') a \<le>s BUS1_ACTIVE_BIAS"
  shows "pc (threads s' t) = Release_wake a w"
proof (cases c)
  case (Activate b)
  then show ?thesis using assms
    by (auto simp: atomic_cmpxchg_def as_sint split: if_splits)
next
  case (Acquire bo)
  then show ?thesis using assms
    by (cases bo) (auto simp: atomic_inc_unless_negative_def as_sint split: if_splits)
next
  case (Release bo q)
  show ?thesis
  proof (cases bo)
    case None
    then show ?thesis using assms Release by auto
  next
    case (Some b)
    note e = release_effect [OF assms(1) [unfolded Release Some]]
    have "b = a" using assms(3,5) e by (auto split: if_splits)
    moreover from this have "mem (ks s) a - 1 = BUS1_ACTIVE_BIAS"
      using assms(3,4,5) e by (auto simp: as_sint sint_dec)
    ultimately show ?thesis using assms(1,2) Release Some
      by (auto simp: atomic_dec_return_def)
  qed
next
  case (Deactivate b)
  then show ?thesis using assms
    by (auto simp: atomic_cmpxchg_def as_sint split: if_splits)
next
  case (Drain b q f)
  then show ?thesis using assms by (auto split: if_splits)
qed

lemma crossing_resume:
  assumes "resume t (pc (threads s t)) s = Some s'" "single_winner a s"
    "\<not> mem (ks s) a \<le>s BUS1_ACTIVE_BIAS" "mem (ks s) a <s 0"
  shows "\<not> mem (ks s') a \<le>s BUS1_ACTIVE_BIAS"
proof (cases "pc (threads s t)")
  case (Deactivate_loop b v)
  then show ?thesis using assms
    by (auto simp: atomic_cmpxchg_def as_sint split: if_splits)
next
  case (Drain_cmpxchg1 b x f)
  then show ?thesis using assms
    by (auto simp: atomic_cmpxchg_def as_sint split: if_splits)
next
  case (Drain_cmpxchg2 b x f)
  then show ?thesis using assms
    by (auto simp: atomic_cmpxchg_def as_sint split: if_splits)
next
  case (Drain_set b x f v)
  then have "winner_on b (pc (threads s t))" by simp
  then have "a = b \<Longrightarrow> mem (ks s) a = BUS1_ACTIVE_RELEASE"
    using assms(2) unfolding single_winner_def by blast
  then show ?thesis using assms(1,3) Drain_set
    by (auto simp: as_sint split: if_splits)
qed (use assms in \<open>auto simp: atomic_read_def split: if_splits option.splits\<close>)

text \<open>The counter comes to \<open>DRAINED\<close> only by the store of the thread that marked the
  object, which is then about to call \<open>wake_up_all\<close>.\<close>

lemma drained_invoke:
  assumes "counted a s" "invoke t c s = Some s'" "releasable (Invoke t c) s"
    "mem (ks s') a = BUS1_ACTIVE_DRAINED"
  shows "mem (ks s) a = BUS1_ACTIVE_DRAINED"
proof (cases c)
  case (Activate b)
  then show ?thesis using assms(2,4)
    by (auto simp: atomic_cmpxchg_def as_sint split: if_splits)
next
  case (Acquire bo)
  then show ?thesis using assms(1,2,4)
    by (cases bo)
      (auto simp: atomic_inc_unless_negative_def counted_def Let_def as_sint sint_inc
        split: if_splits)
next
  case (Release bo q)
  show ?thesis
  proof (cases bo)
    case None
    then show ?thesis using assms(2,4) Release by auto
  next
    case (Some b)
    note e = release_effect [OF assms(2) [unfolded Release Some]]
    have "b = a \<Longrightarrow> 0 < held s a" using assms(3) Release Some by simp
    then show ?thesis using assms(1,4) e
      by (auto simp: counted_def Let_def as_sint sint_dec split: if_splits)
  qed
next
  case (Deactivate b)
  then show ?thesis using assms(2,4)
    by (auto simp: atomic_cmpxchg_def as_sint split: if_splits)
next
  case (Drain b q f)
  then show ?thesis using assms(2,4) by (auto split: if_splits)
qed

lemma drained_resume:
  assumes "resume t (pc (threads s t)) s = Some s'"
    "mem (ks s') a = BUS1_ACTIVE_DRAINED" "mem (ks s) a \<noteq> BUS1_ACTIVE_DRAINED"
  shows "\<exists>q f v. pc (threads s t) = Drain_set a q f v \<and>
           pc (threads s' t) = Drain_wake_all a q f v"
proof (cases "pc (threads s t)")
  case (Deactivate_loop b v)
  then show ?thesis using assms
    by (auto simp: atomic_cmpxchg_def as_sint sint_add_BIAS split: if_splits)
next
  case (Drain_cmpxchg1 b x f)
  then show ?thesis using assms
    by (auto simp: atomic_cmpxchg_def as_sint split: if_splits)
next
  case (Drain_cmpxchg2 b x f)
  then show ?thesis using assms
    by (auto simp: atomic_cmpxchg_def as_sint split: if_splits)
next
  case (Drain_set b x f v)
  then show ?thesis using assms by (auto split: if_splits)
qed (use assms in \<open>auto simp: atomic_read_def split: if_splits option.splits\<close>)

text \<open>A thread that was about to wake the queue and is no longer has woken it.\<close>

lemma woken:
  assumes "step l s = Some s'" "pc (threads s u) = Release_wake a w"
    "pc (threads s' u) \<noteq> Release_wake a w"
  shows "wakes w (klog (ks s)) < wakes w (klog (ks s'))"
proof (cases l)
  case (Invoke t c)
  then have "u \<noteq> t" using assms(1,2) by (auto split: if_splits)
  then show ?thesis using others_step [OF assms(1), of u] assms(2,3) Invoke by simp
next
  case (Resume t)
  show ?thesis
  proof (cases "u = t")
    case True
    then show ?thesis using assms(1,2) Resume by (auto simp: wakes_def)
  next
    case False
    then show ?thesis using others_step [OF assms(1), of u] assms(2,3) Resume by simp
  qed
next
  case (Spurious t)
  then have "u \<noteq> t" using assms(1,2) by auto
  then show ?thesis using others_step [OF assms(1), of u] assms(2,3) Spurious by simp
qed

lemma woken_all:
  assumes "step l s = Some s'" "pc (threads s u) = Drain_wake_all a w f v"
    "pc (threads s' u) \<noteq> Drain_wake_all a w f v"
  shows "wakes w (klog (ks s)) < wakes w (klog (ks s'))"
proof (cases l)
  case (Invoke t c)
  then have "u \<noteq> t" using assms(1,2) by (auto split: if_splits)
  then show ?thesis using others_step [OF assms(1), of u] assms(2,3) Invoke by simp
next
  case (Resume t)
  show ?thesis
  proof (cases "u = t")
    case True
    then show ?thesis using assms(1,2) Resume by (auto simp: wakes_def)
  next
    case False
    then show ?thesis using others_step [OF assms(1), of u] assms(2,3) Resume by simp
  qed
next
  case (Spurious t)
  then have "u \<noteq> t" using assms(1,2) by auto
  then show ?thesis using others_step [OF assms(1), of u] assms(2,3) Spurious by simp
qed

text \<open>The thread that takes the step is rested where it arrives.\<close>

lemma rested_invoke:
  assumes "invoke t c s = Some s'" "uses a w (Invoke t c)"
  shows "rested a w c' k p1 p2 (pc (threads s' t))"
  using assms
  by (cases "(t, c, s)" rule: invoke.cases) (auto split: prod.splits if_splits option.splits)

lemma rested_resume:
  assumes "resume t (pc (threads s t)) s = Some s'"
    "rested a w (mem (ks s) a) (wakes w (klog (ks s))) p1 p2 (pc (threads s t))"
  shows "rested a w (mem (ks s') a) (wakes w (klog (ks s'))) p1' p2' (pc (threads s' t))"
proof (cases "pc (threads s t)")
  case (Drain_wait b q f st)
  then show ?thesis using assms
    by (cases st) (auto simp: atomic_read_def split: if_splits)
next
  case (Drain_wait_drained b q f v st)
  then show ?thesis using assms
    by (cases st) (auto simp: atomic_read_def split: if_splits)
next
  case (Drain_cmpxchg1 b q f)
  then show ?thesis using assms
    by (auto simp: atomic_cmpxchg_def split: if_splits)
next
  case (Drain_cmpxchg2 b q f)
  then show ?thesis using assms
    by (auto simp: atomic_cmpxchg_def split: if_splits)
next
  case (Deactivate_loop b v)
  then show ?thesis using assms
    by (auto simp: atomic_cmpxchg_def split: if_splits)
qed (use assms in \<open>auto split: if_splits option.splits\<close>)

lemma rested_spurious:
  assumes "spurious t (pc (threads s t)) s = Some s'"
    "rested a w c k p1 p2 (pc (threads s t))"
  shows "rested a w c' k' p1' p2' (pc (threads s' t))"
  using assms(1)
proof (cases rule: spurious_cases)
  case (first b q f n)
  then show ?thesis using assms(2) by auto
next
  case (second b q f v n)
  then show ?thesis using assms(2) by auto
qed

lemma awake_step:
  assumes "consistent a s" "awake a w s" "step l s = Some s'" "releasable l s" "uses a w l"
  shows "awake a w s'"
  unfolding awake_def
proof
  fix u
  let ?c = "mem (ks s) a" and ?c' = "mem (ks s') a"
  let ?k = "wakes w (klog (ks s))" and ?k' = "wakes w (klog (ks s'))"
  have cn: "counted a s" and sw: "single_winner a s" and kn: "knows a s"
    using assms(1) by (simp_all add: consistent_def)
  have r: "rested a w ?c ?k (waking a w s) (waking_all a w s) (pc (threads s v))" for v
    using assms(2) by (simp add: awake_def)
  show "rested a w ?c' ?k' (waking a w s') (waking_all a w s') (pc (threads s' u))"
  proof (cases "u = actor l")
    case True
    show ?thesis
    proof (cases l)
      case (Invoke t c)
      then show ?thesis using True assms(3,5) rested_invoke [of u c s s' a w]
        by (auto split: if_splits)
    next
      case (Resume t)
      then show ?thesis using True assms(3) r [of u] rested_resume [of u s s' a w] by simp
    next
      case (Spurious t)
      then show ?thesis using True assms(3) r [of u] rested_spurious [of u s s' a w] by simp
    qed
  next
    case False
    then have same: "threads s' u = threads s u" using assms(3) by (simp add: others_step)
    have "rested a w ?c' ?k' (waking a w s') (waking_all a w s') (pc (threads s u))"
    proof (rule rested_mono [OF r [of u]])
      show "drain_knows a ?c (pc (threads s u))" using kn by (simp add: knows_def)
      show "?k \<le> ?k'" using assms(3) by (rule wakes_step)
    next
      assume x: "?c' \<le>s BUS1_ACTIVE_BIAS" "\<not> ?c \<le>s BUS1_ACTIVE_BIAS" "?c <s 0"
      show "waking a w s'"
      proof (cases l)
        case (Invoke t c)
        then have "pc (threads s' t) = Release_wake a w"
          using assms(3,5) x crossing_invoke [of t c s s' a w] by (auto split: if_splits)
        then show ?thesis unfolding waking_def ..
      next
        case (Resume t)
        then show ?thesis using assms(3) x crossing_resume [of t s s' a] sw by simp
      next
        case (Spurious t)
        then show ?thesis using assms(3) x spurious_same(1) [of t "pc (threads s t)" s s'] by simp
      qed
    next
      assume "waking a w s" "\<not> waking a w s'"
      then obtain v where "pc (threads s v) = Release_wake a w"
        "pc (threads s' v) \<noteq> Release_wake a w"
        unfolding waking_def by blast
      with assms(3) show "?k < ?k'" by (rule woken)
    next
      assume x: "?c' = BUS1_ACTIVE_DRAINED" "?c \<noteq> BUS1_ACTIVE_DRAINED"
      show "waking_all a w s'"
      proof (cases l)
        case (Invoke t c)
        then show ?thesis using assms(3,4) x drained_invoke [OF cn, of t c s']
          by (auto split: if_splits)
      next
        case (Resume t)
        then obtain q f v where p: "pc (threads s t) = Drain_set a q f v"
          "pc (threads s' t) = Drain_wake_all a q f v"
          using assms(3) x drained_resume [of t s s' a] by auto
        then have "q = w" using r [of t] by simp
        then show ?thesis using p unfolding waking_all_def by blast
      next
        case (Spurious t)
        then show ?thesis using assms(3) x spurious_same(1) [of t "pc (threads s t)" s s'] by simp
      qed
    next
      assume "waking_all a w s" "\<not> waking_all a w s'"
      then obtain v f y where "pc (threads s v) = Drain_wake_all a w f y"
        "pc (threads s' v) \<noteq> Drain_wake_all a w f y"
        unfolding waking_all_def by blast
      with assms(3) show "?k < ?k'" by (rule woken_all)
    qed
    then show ?thesis using same by simp
  qed
qed

lemma awake_quiet: "awake a w (quiet k)"
  by (simp add: awake_def quiet_def)

lemma awake_boot: "awake a w (boot a k)"
  by (simp add: boot_def awake_quiet)
subsection \<open>Every drain call returns\<close>

lemma steady_step:
  assumes "steady a w s" "step l s = Some s'" "releasable l s" "uses a w l"
  shows "steady a w s'"
proof -
  have so: "sound a s" and se: "settled a s" and aw: "awake a w s"
    using assms(1) by (simp_all add: steady_def)
  have c: "consistent a s" using so by (simp add: sound_def)
  show ?thesis
    using settled_step [OF so se assms(2,3)] awake_step [OF c aw assms(2,3,4)]
    by (simp add: steady_def)
qed

lemma steady_resume:
  assumes "steady a w s" "step (Resume t) s = Some s'"
  shows "steady a w s'"
  using assms by (rule steady_step) simp_all

lemma can_return_now:
  "pc (threads s t) = Returned (Drain a q f) (RBool r) \<Longrightarrow> WARN \<notin> set (did (threads s t)) \<Longrightarrow>
   mem (ks s) a = BUS1_ACTIVE_DRAINED \<Longrightarrow> can_return a t s"
  unfolding can_return_def by (rule exI [of _ "[]"]) simp

lemma can_return_step:
  assumes "step (Resume u) s = Some s1" "can_return a t s1"
  shows "can_return a t s"
proof -
  obtain ts where "case run (map Resume ts) s1 of None \<Rightarrow> False
      | Some s' \<Rightarrow> (\<exists>q f r. pc (threads s' t) = Returned (Drain a q f) (RBool r)) \<and>
          WARN \<notin> set (did (threads s' t)) \<and> mem (ks s') a = BUS1_ACTIVE_DRAINED"
    using assms(2) unfolding can_return_def by blast
  then have "case run (map Resume (u # ts)) s of None \<Rightarrow> False
      | Some s' \<Rightarrow> (\<exists>q f r. pc (threads s' t) = Returned (Drain a q f) (RBool r)) \<and>
          WARN \<notin> set (did (threads s' t)) \<and> mem (ks s') a = BUS1_ACTIVE_DRAINED"
    using assms(1) by simp
  then show ?thesis unfolding can_return_def by blast
qed

lemma advance:
  assumes "steady a w s" "step (Resume u) s = Some s1"
    "steady a w s1 \<Longrightarrow> can_return a t s1"
  shows "can_return a t s"
  using can_return_step [OF assms(2)] assms(3) steady_resume [OF assms(1,2)] by blast

lemma steady_script:
  "steady a w s \<Longrightarrow> draining (pc (threads s t)) = Some a \<Longrightarrow>
   script (mem (ks s) a) (pc (threads s t)) (did (threads s t))"
  by (simp add: steady_def sound_def scripted_def)

lemma steady_rested:
  "steady a w s \<Longrightarrow>
   rested a w (mem (ks s) a) (wakes w (klog (ks s))) (waking a w s) (waking_all a w s)
     (pc (threads s t))"
  by (simp add: steady_def awake_def)

lemma steady_low: "steady a w s \<Longrightarrow> mem (ks s) a \<le>s BUS1_ACTIVE_BIAS"
  by (auto simp: steady_def settled_def released_def as_sint)

text \<open>The thread that marked the object.\<close>

lemma return_from_wake_all:
  assumes "steady a w s" "pc (threads s t) = Drain_wake_all a q f v"
  shows "can_return a t s"
proof -
  let ?s1 = "goto t (Returned (Drain a q f) (RBool (drained_by v)))
      (emit (WAKE_UP_ALL q) (ks s)) s"
  have sc: "mem (ks s) a = BUS1_ACTIVE_DRAINED"
    "did (threads s t) =
       STORE a BUS1_ACTIVE_RELEASE # callback_events f a @ [STORE a BUS1_ACTIVE_DRAINED]"
    using steady_script [OF assms(1), of t] assms(2) by simp_all
  have "can_return a t ?s1"
    using sc by (intro can_return_now [of _ _ a q f "drained_by v"]) (cases f; simp)+
  moreover have "step (Resume t) s = Some ?s1" using assms(2) by simp
  ultimately show ?thesis by (rule can_return_step [rotated])
qed

lemma return_from_set:
  assumes "steady a w s" "pc (threads s t) = Drain_set a q f v"
  shows "can_return a t s"
proof (rule advance [OF assms(1)])
  let ?s1 = "goto t (Drain_wake_all a q f v) (atomic_set a BUS1_ACTIVE_DRAINED (ks s)) s"
  show "step (Resume t) s = Some ?s1" using assms(2) by simp
  show "steady a w ?s1 \<Longrightarrow> can_return a t ?s1"
    by (rule return_from_wake_all [of a w _ t q f v]) simp_all
qed

lemma return_from_release:
  assumes "steady a w s" "pc (threads s t) = Drain_release a q f v"
  shows "can_return a t s"
proof (rule advance [OF assms(1)])
  let ?s1 = "goto t (Drain_set a q f v)
      (case f of None \<Rightarrow> ks s | Some g \<Rightarrow> emit (CALL g a) (ks s)) s"
  show "step (Resume t) s = Some ?s1" using assms(2) by simp
  show "steady a w ?s1 \<Longrightarrow> can_return a t ?s1"
    by (rule return_from_set [of a w _ t q f v]) simp_all
qed

text \<open>A thread in the second wait, once the counter is \<open>DRAINED\<close>.\<close>

lemma return_drained_test:
  assumes "pc (threads s t) = Drain_wait_drained a q f v Test"
    "mem (ks s) a = BUS1_ACTIVE_DRAINED" "did (threads s t) = []"
  shows "can_return a t s"
proof -
  let ?s1 = "goto t (Returned (Drain a q f) (RBool (drained_by v))) (ks s) s"
  have "step (Resume t) s = Some ?s1" using assms by (simp add: atomic_read_def)
  moreover have "can_return a t ?s1"
    using assms(2,3) by (intro can_return_now [of _ _ a q f "drained_by v"]) simp_all
  ultimately show ?thesis by (rule can_return_step)
qed

lemma return_drained_check:
  assumes "pc (threads s t) = Drain_wait_drained a q f v (Check n)"
    "mem (ks s) a = BUS1_ACTIVE_DRAINED" "did (threads s t) = []"
  shows "can_return a t s"
proof -
  let ?s1 = "goto t (Returned (Drain a q f) (RBool (drained_by v))) (ks s) s"
  have "step (Resume t) s = Some ?s1" using assms by (simp add: atomic_read_def)
  moreover have "can_return a t ?s1"
    using assms(2,3) by (intro can_return_now [of _ _ a q f "drained_by v"]) simp_all
  ultimately show ?thesis by (rule can_return_step)
qed

lemma return_drained_enqueue:
  assumes "pc (threads s t) = Drain_wait_drained a q f v Enqueue"
    "mem (ks s) a = BUS1_ACTIVE_DRAINED" "did (threads s t) = []"
  shows "can_return a t s"
proof -
  let ?s1 = "goto t (Drain_wait_drained a q f v (Check (wakes q (klog (ks s))))) (ks s) s"
  have "step (Resume t) s = Some ?s1" using assms by simp
  moreover have "can_return a t ?s1"
    using assms(2,3) by (intro return_drained_check [of _ _ a q f v]) simp_all
  ultimately show ?thesis by (rule can_return_step)
qed

lemma return_drained_woken:
  assumes "pc (threads s t) = Drain_wait_drained a q f v (Sleep n)"
    "mem (ks s) a = BUS1_ACTIVE_DRAINED" "n < wakes q (klog (ks s))" "did (threads s t) = []"
  shows "can_return a t s"
proof -
  let ?s1 = "goto t (Drain_wait_drained a q f v Enqueue) (ks s) s"
  have "step (Resume t) s = Some ?s1" using assms by simp
  moreover have "can_return a t ?s1"
    using assms(2,4) by (intro return_drained_enqueue [of _ _ a q f v]) simp_all
  ultimately show ?thesis by (rule can_return_step)
qed

lemma return_drained_sleep:
  assumes "steady a w s" "pc (threads s t) = Drain_wait_drained a q f v (Sleep n)"
    "mem (ks s) a = BUS1_ACTIVE_DRAINED"
  shows "can_return a t s"
proof -
  have r: "q = w \<and> n \<le> wakes w (klog (ks s)) \<and> (n < wakes w (klog (ks s)) \<or> waking_all a w s)"
    using steady_rested [OF assms(1), of t] assms(2,3) by simp
  have d: "did (threads s t) = []"
    using steady_script [OF assms(1), of t] assms(2) by simp
  show ?thesis
  proof (cases "n < wakes w (klog (ks s))")
    case True
    then show ?thesis using assms(2,3) r d return_drained_woken [of s t a q f v n] by simp
  next
    case False
    then obtain u g y where u: "pc (threads s u) = Drain_wake_all a w g y"
      using r unfolding waking_all_def by blast
    then have ne: "u \<noteq> t" using assms(2) by auto
    let ?s1 = "goto u (Returned (Drain a w g) (RBool (drained_by y)))
        (emit (WAKE_UP_ALL w) (ks s)) s"
    have "step (Resume u) s = Some ?s1" using u by simp
    moreover have "can_return a t ?s1"
      using ne assms(2,3) r d
      by (intro return_drained_woken [of _ _ a q f v n]) (simp_all add: wakes_def)
    ultimately show ?thesis by (rule can_return_step)
  qed
qed

lemma return_drained:
  assumes "steady a w s" "pc (threads s t) = Drain_wait_drained a q f v st"
    "mem (ks s) a = BUS1_ACTIVE_DRAINED"
  shows "can_return a t s"
proof -
  have d: "did (threads s t) = []"
    using steady_script [OF assms(1), of t] assms(2) by simp
  show ?thesis
  proof (cases st)
    case Test
    then show ?thesis using assms(2,3) d by (simp add: return_drained_test)
  next
    case Enqueue
    then show ?thesis using assms(2,3) d by (simp add: return_drained_enqueue)
  next
    case (Check n)
    then show ?thesis using assms(2,3) d by (simp add: return_drained_check)
  next
    case (Sleep n)
    then show ?thesis using assms return_drained_sleep [of a w s t q f v n] by simp
  qed
qed

text \<open>A thread in the second wait while the counter is \<open>RELEASE\<close>: the thread that
  marked the object goes on to store \<open>DRAINED\<close>.\<close>

lemma return_after_set:
  assumes "steady a w s" "pc (threads s t) = Drain_wait_drained a q f v st"
    "pc (threads s u) = Drain_set a x g y"
  shows "can_return a t s"
proof (rule advance [OF assms(1)])
  let ?s1 = "goto u (Drain_wake_all a x g y) (atomic_set a BUS1_ACTIVE_DRAINED (ks s)) s"
  have ne: "u \<noteq> t" using assms(2,3) by auto
  show "step (Resume u) s = Some ?s1" using assms(3) by simp
  show "steady a w ?s1 \<Longrightarrow> can_return a t ?s1"
    using ne assms(2) by (intro return_drained [of a w _ t q f v st]) simp_all
qed

lemma return_after_release:
  assumes "steady a w s" "pc (threads s t) = Drain_wait_drained a q f v st"
    "pc (threads s u) = Drain_release a x g y"
  shows "can_return a t s"
proof (rule advance [OF assms(1)])
  let ?s1 = "goto u (Drain_set a x g y)
      (case g of None \<Rightarrow> ks s | Some h \<Rightarrow> emit (CALL h a) (ks s)) s"
  have ne: "u \<noteq> t" using assms(2,3) by auto
  show "step (Resume u) s = Some ?s1" using assms(3) by simp
  show "steady a w ?s1 \<Longrightarrow> can_return a t ?s1"
    using ne assms(2) by (intro return_after_set [of a w _ t q f v st u x g y]) simp_all
qed

lemma return_from_wait_drained:
  assumes "steady a w s" "pc (threads s t) = Drain_wait_drained a q f v st"
  shows "can_return a t s"
proof -
  have k: "knows a s" and m: "marked a s"
    using assms(1) by (simp_all add: steady_def sound_def consistent_def)
  have "released (mem (ks s) a)"
    using k assms(2) unfolding knows_def by (auto dest!: spec [of _ t])
  then consider "mem (ks s) a = BUS1_ACTIVE_DRAINED" | "mem (ks s) a = BUS1_ACTIVE_RELEASE"
    by (auto simp: released_def)
  then show ?thesis
  proof cases
    case 1
    with assms show ?thesis by (rule return_drained)
  next
    case 2
    then obtain u where "winner_on a (pc (threads s u))" using m by (auto simp: marked_def)
    then consider x g y where "pc (threads s u) = Drain_release a x g y"
      | x g y where "pc (threads s u) = Drain_set a x g y"
      by (cases "pc (threads s u)") auto
    then show ?thesis
    proof cases
      case 1
      with assms show ?thesis by (rule return_after_release)
    next
      case 2
      with assms show ?thesis by (rule return_after_set)
    qed
  qed
qed

text \<open>A thread before one of the two \<open>atomic_cmpxchg\<close>.\<close>

lemma return_from_cmpxchg2:
  assumes "steady a w s" "pc (threads s t) = Drain_cmpxchg2 a q f"
  shows "can_return a t s"
proof -
  have "\<exists>s1. step (Resume t) s = Some s1 \<and>
      (pc (threads s1 t) = Drain_release a q f (mem (ks s) a) \<or>
       pc (threads s1 t) = Drain_wait_drained a q f (mem (ks s) a) Test)"
    using assms(2) by (simp add: atomic_cmpxchg_def)
  then obtain s1 where s1: "step (Resume t) s = Some s1"
    and p: "pc (threads s1 t) = Drain_release a q f (mem (ks s) a) \<or>
            pc (threads s1 t) = Drain_wait_drained a q f (mem (ks s) a) Test"
    by blast
  have st: "steady a w s1" using assms(1) s1 by (rule steady_resume)
  from p have "can_return a t s1"
  proof
    assume "pc (threads s1 t) = Drain_release a q f (mem (ks s) a)"
    with st show ?thesis by (rule return_from_release)
  next
    assume "pc (threads s1 t) = Drain_wait_drained a q f (mem (ks s) a) Test"
    with st show ?thesis by (rule return_from_wait_drained)
  qed
  with s1 show ?thesis by (rule can_return_step)
qed

lemma return_from_cmpxchg1:
  assumes "steady a w s" "pc (threads s t) = Drain_cmpxchg1 a q f"
  shows "can_return a t s"
proof -
  have "\<exists>s1. step (Resume t) s = Some s1 \<and>
      (pc (threads s1 t) = Drain_release a q f (mem (ks s) a) \<or>
       pc (threads s1 t) = Drain_cmpxchg2 a q f)"
    using assms(2) by (simp add: atomic_cmpxchg_def drained_by_def)
  then obtain s1 where s1: "step (Resume t) s = Some s1"
    and p: "pc (threads s1 t) = Drain_release a q f (mem (ks s) a) \<or>
            pc (threads s1 t) = Drain_cmpxchg2 a q f"
    by blast
  have st: "steady a w s1" using assms(1) s1 by (rule steady_resume)
  from p have "can_return a t s1"
  proof
    assume "pc (threads s1 t) = Drain_release a q f (mem (ks s) a)"
    with st show ?thesis by (rule return_from_release)
  next
    assume "pc (threads s1 t) = Drain_cmpxchg2 a q f"
    with st show ?thesis by (rule return_from_cmpxchg2)
  qed
  with s1 show ?thesis by (rule can_return_step)
qed

text \<open>A thread in the first wait: all references are released, so its condition
  holds.\<close>

lemma return_from_test:
  assumes "steady a w s" "pc (threads s t) = Drain_wait a q f Test"
  shows "can_return a t s"
proof (rule advance [OF assms(1)])
  let ?s1 = "goto t (Drain_cmpxchg1 a q f) (ks s) s"
  show "step (Resume t) s = Some ?s1"
    using assms(2) steady_low [OF assms(1)] by (simp add: atomic_read_def)
  show "steady a w ?s1 \<Longrightarrow> can_return a t ?s1"
    by (rule return_from_cmpxchg1 [of a w _ t q f]) simp_all
qed

lemma return_from_check:
  assumes "steady a w s" "pc (threads s t) = Drain_wait a q f (Check n)"
  shows "can_return a t s"
proof (rule advance [OF assms(1)])
  let ?s1 = "goto t (Drain_cmpxchg1 a q f) (ks s) s"
  show "step (Resume t) s = Some ?s1"
    using assms(2) steady_low [OF assms(1)] by (simp add: atomic_read_def)
  show "steady a w ?s1 \<Longrightarrow> can_return a t ?s1"
    by (rule return_from_cmpxchg1 [of a w _ t q f]) simp_all
qed

lemma return_from_enqueue:
  assumes "steady a w s" "pc (threads s t) = Drain_wait a q f Enqueue"
  shows "can_return a t s"
proof (rule advance [OF assms(1)])
  let ?s1 = "goto t (Drain_wait a q f (Check (wakes q (klog (ks s))))) (ks s) s"
  show "step (Resume t) s = Some ?s1" using assms(2) by simp
  show "steady a w ?s1 \<Longrightarrow> can_return a t ?s1"
    by (rule return_from_check [of a w _ t q f]) simp_all
qed

lemma return_from_woken:
  assumes "steady a w s" "pc (threads s t) = Drain_wait a q f (Sleep n)"
    "n < wakes q (klog (ks s))"
  shows "can_return a t s"
proof (rule advance [OF assms(1)])
  let ?s1 = "goto t (Drain_wait a q f Enqueue) (ks s) s"
  show "step (Resume t) s = Some ?s1" using assms(2,3) by simp
  show "steady a w ?s1 \<Longrightarrow> can_return a t ?s1"
    by (rule return_from_enqueue [of a w _ t q f]) simp_all
qed

lemma return_from_sleep:
  assumes "steady a w s" "pc (threads s t) = Drain_wait a q f (Sleep n)"
  shows "can_return a t s"
proof -
  have r: "q = w \<and> n \<le> wakes w (klog (ks s)) \<and> (n < wakes w (klog (ks s)) \<or> waking a w s)"
    using steady_rested [OF assms(1), of t] assms(2) steady_low [OF assms(1)] by simp
  show ?thesis
  proof (cases "n < wakes w (klog (ks s))")
    case True
    then show ?thesis using assms r return_from_woken [of a w s t q f n] by simp
  next
    case False
    then obtain u where u: "pc (threads s u) = Release_wake a w"
      using r unfolding waking_def by blast
    then have ne: "u \<noteq> t" using assms(2) by auto
    show ?thesis
    proof (rule advance [OF assms(1)])
      let ?s1 = "goto u (Returned (Release (Some a) (Some w)) (RPtr None))
          (emit (WAKE_UP w) (ks s)) s"
      show "step (Resume u) s = Some ?s1" using u by simp
      show "steady a w ?s1 \<Longrightarrow> can_return a t ?s1"
        using ne assms(2) r
        by (intro return_from_woken [of a w _ t q f n]) (simp_all add: wakes_def)
    qed
  qed
qed

lemma drain_can_return:
  assumes "steady a w s" "inside a (pc (threads s t))"
  shows "can_return a t s"
proof (cases "pc (threads s t)")
  case (Drain_wait b q f st)
  then have "b = a" using assms(2) by (simp add: inside_def)
  then show ?thesis
    using Drain_wait assms(1) return_from_test [of a w s t q f]
      return_from_enqueue [of a w s t q f] return_from_check [of a w s t q f]
      return_from_sleep [of a w s t q f]
    by (cases st) simp_all
next
  case (Drain_cmpxchg1 b q f)
  then show ?thesis using assms return_from_cmpxchg1 [of a w s t q f]
    by (simp add: inside_def)
next
  case (Drain_cmpxchg2 b q f)
  then show ?thesis using assms return_from_cmpxchg2 [of a w s t q f]
    by (simp add: inside_def)
next
  case (Drain_release b q f v)
  then show ?thesis using assms return_from_release [of a w s t q f v]
    by (simp add: inside_def)
next
  case (Drain_set b q f v)
  then show ?thesis using assms return_from_set [of a w s t q f v]
    by (simp add: inside_def)
next
  case (Drain_wake_all b q f v)
  then show ?thesis using assms return_from_wake_all [of a w s t q f v]
    by (simp add: inside_def)
next
  case (Drain_wait_drained b q f v st)
  then show ?thesis using assms return_from_wait_drained [of a w s t q f v st]
    by (simp add: inside_def)
qed (use assms(2) in \<open>simp_all add: inside_def\<close>)

text \<open>A thread between calls that calls drain on such an object.\<close>

lemma drain_can_start:
  assumes "steady a w s" "between_calls (pc (threads s t))"
  shows "can_drain a w f t s"
proof -
  let ?s1 = "enter t (Drain_wait a w f Test) (ks s) s"
  have "bus1_active_is_deactivated a (ks s)"
    using assms(1)
    by (auto simp: steady_def settled_def released_def bus1_active_is_deactivated_def
        atomic_read_def as_sint)
  then have st: "step (Invoke t (Drain a w f)) s = Some ?s1" using assms(2) by simp
  have "steady a w ?s1" using assms(1) st by (rule steady_step) simp_all
  then have "can_return a t ?s1"
    by (rule drain_can_return) (simp add: inside_def)
  then show ?thesis using st by (simp add: can_drain_def)
qed
subsection \<open>Along a run, no wake-up is lost\<close>

lemma run_awake:
  assumes "\<forall>x \<in> set (visited ls s). consistent a x" "awake a w s" "balanced ls s"
    "list_all (uses a w) ls"
  shows "\<forall>x \<in> set (visited ls s). awake a w x"
  using assms
proof (induction ls arbitrary: s)
  case Nil
  then show ?case by simp
next
  case (Cons l ls)
  show ?case
  proof (cases "step l s")
    case None
    then show ?thesis using Cons.prems by simp
  next
    case (Some s')
    have c: "consistent a s" using Cons.prems(1) by simp
    have r: "releasable l s" and b: "balanced ls s'" using Cons.prems(3) Some by auto
    have u: "uses a w l" and us: "list_all (uses a w) ls" using Cons.prems(4) by simp_all
    have "awake a w s'" using awake_step [OF c Cons.prems(2) Some r u] .
    moreover have "\<forall>x \<in> set (visited ls s'). consistent a x"
      using Cons.prems(1) Some by simp
    ultimately have "\<forall>x \<in> set (visited ls s'). awake a w x"
      using Cons.IH [of s'] b us by blast
    then show ?thesis using Cons.prems(2) Some by simp
  qed
qed

text \<open>While the counter counts the references, deactivation has taken effect with no
  reference held exactly when the counter is at the bias or below it.\<close>

lemma settled_counted:
  assumes "counted a s" "bus1_active_is_deactivated a (ks s)" "held s a = 0"
  shows "settled a s"
  using assms
  by (auto simp: settled_def counted_def released_def bus1_active_is_deactivated_def
      atomic_read_def Let_def as_sint split: if_splits)

subsection \<open>A thread on its own does what the functions of active.c do\<close>

text \<open>The functions of the first part are the machine with a single thread: same
  return value, same kernel state, and the same calls never return.\<close>

lemmas finish8 = eval_nat_numeral finish.simps

lemma alone_activate:
  "between_calls (pc (threads s t)) \<Longrightarrow>
   alone t (Activate a) s =
     (case bus1_active_activate a (ks s) of (r, k) \<Rightarrow> Some (Returned (Activate a) (RBool r), k))"
  by (simp add: alone_def bus1_active_activate_def finish8 split: prod.splits)

lemma alone_acquire:
  "between_calls (pc (threads s t)) \<Longrightarrow>
   alone t (Acquire p) s =
     (case bus1_active_acquire p (ks s) of (r, k) \<Rightarrow> Some (Returned (Acquire p) (RPtr r), k))"
  by (cases p) (simp_all add: alone_def bus1_active_acquire_def finish8 split: prod.splits)

lemma alone_release:
  "between_calls (pc (threads s t)) \<Longrightarrow>
   alone t (Release p w) s =
     (case bus1_active_release p w (ks s) of (r, k) \<Rightarrow> Some (Returned (Release p w) (RPtr r), k))"
  by (cases p; cases w)
    (simp_all add: alone_def bus1_active_release_def atomic_dec_return_def finish8)

lemma alone_deactivate:
  "between_calls (pc (threads s t)) \<Longrightarrow>
   alone t (Deactivate a) s = Some (Returned (Deactivate a) RVoid, bus1_active_deactivate a (ks s))"
  by (simp add: alone_def deactivate_eq atomic_cmpxchg_def atomic_read_def finish8)

lemma alone_drain:
  "between_calls (pc (threads s t)) \<Longrightarrow>
   alone t (Drain a w f) s =
     map_option (\<lambda>(r, k). (Returned (Drain a w f) (RBool r), k)) (bus1_active_drain a w f (ks s))"
  by (cases f)
    (simp_all add: alone_def bus1_active_drain_def atomic_cmpxchg_def atomic_read_def
      drained_by_def Let_def finish8 active_consts)

subsection \<open>The state a run ends in is one of the states it visits\<close>

lemma run_visited: "run xs s = Some x \<Longrightarrow> x \<in> set (visited (xs @ ys) s)"
proof (induction xs arbitrary: s)
  case Nil
  then have "x = s" by simp
  then show ?case by (cases ys) simp_all
next
  case (Cons l xs)
  then show ?case by (auto split: option.splits)
qed
section \<open>The claims about interleaved calls\<close>

lemmas machine_defs = boot_def quiet_def bus1_active_init_def atomic_cmpxchg_def
  atomic_inc_unless_negative_def atomic_dec_return_def atomic_read_def
  bus1_active_is_deactivated_def Let_def drained_by_def word_sle_eq word_sless_alt
  active_consts

text \<open>Deactivating, draining and releasing once, from a counter that stands at the
  negated bias while references are held.\<close>

lemma teardown_with_references:
  assumes "between_calls (pc (threads s 0))" "mem (ks s) 7 = 2147483643" "0 < held s 7"
  shows "balanced
      [Invoke 0 (Deactivate 7), Resume 0, Resume 0, Invoke 0 (Deactivate 7), Resume 0, Resume 0,
       Invoke 0 (Drain 7 3 None), Resume 0, Resume 0, Resume 0, Resume 0, Resume 0, Resume 0,
       Invoke 0 (Release (Some 7) None)] s \<and>
    map_option (\<lambda>x. mem (ks x) 7)
      (run [Invoke 0 (Deactivate 7), Resume 0, Resume 0] s) = Some 0 \<and>
    map_option (\<lambda>x. mem (ks x) 7)
      (run [Invoke 0 (Deactivate 7), Resume 0, Resume 0, Invoke 0 (Deactivate 7), Resume 0,
        Resume 0, Invoke 0 (Drain 7 3 None), Resume 0, Resume 0, Resume 0, Resume 0, Resume 0,
        Resume 0] s) = Some BUS1_ACTIVE_DRAINED \<and>
    map_option (\<lambda>x. mem (ks x) 7)
      (run [Invoke 0 (Deactivate 7), Resume 0, Resume 0, Invoke 0 (Deactivate 7), Resume 0,
        Resume 0, Invoke 0 (Drain 7 3 None), Resume 0, Resume 0, Resume 0, Resume 0, Resume 0,
        Resume 0, Invoke 0 (Release (Some 7) None)] s) = Some BUS1_ACTIVE_NEW"
  using assms by (simp add: machine_defs)

text \<open>
  C1. A drain on an object on which deactivation has taken effect and whose references
  are all released, that is with the counter at \<open>RELEASE_DIRECT\<close> or at the bias.
  \<^item> Run on its own, the call stores \<open>RELEASE\<close>, calls the callback if it was given
    one, stores \<open>DRAINED\<close>, wakes all waiters of the wait-queue, in this order, and
    returns true.
  \<^item> A call that gets past the first wait and whose two \<open>atomic_cmpxchg\<close> both fail
    writes nothing, so calls no callback: it returns false if the counter is
    \<open>DRAINED\<close>, and otherwise sleeps until it is.
  \<^item> With any number of threads making any calls in any interleaving from such an
    object, every thread idle at first and no reference held, in every state that is
    reached: the log holds no store of \<open>RELEASE\<close> and no callback call before the
    object is marked, and from then on exactly one such store, followed by at most one
    callback call (\<open>released_once\<close>); exactly one thread marks the object, and it is
    the only one whose drain returns true (\<open>tally\<close>); every drain call follows the
    script, so the thread whose \<open>atomic_cmpxchg\<close> stored \<open>RELEASE\<close> is the one that
    calls the callback, stores \<open>DRAINED\<close> and wakes all, and a thread whose
    \<open>atomic_cmpxchg\<close> both failed has written nothing and returns false only when the
    counter is \<open>DRAINED\<close> (\<open>scripted\<close>). And if the calls keep to the wait-queue of the
    object, no drain call is stuck: the threads that are inside a call need only go
    on, sleepers waiting for their wake-up, and the drain returns, with the object
    drained (\<open>can_return\<close>); and a drain that is called now gets into its first wait
    without a report and returns in the same way (\<open>can_drain\<close>).
  \<^item> The same in every state reached from a freshly initialised object, as long as
    fewer than \<open>2 ^ 31 - 5\<close> references are held, so that the counter counts them;
    here no drain call is stuck in any state in which deactivation has taken effect
    and no reference is held. This covers the drain that was called while references
    were held and sleeps in the first wait when the last of them is released.
\<close>

theorem C1_drain:
  "(mem k a = BUS1_ACTIVE_RELEASE_DIRECT \<or> mem k a = BUS1_ACTIVE_BIAS \<longrightarrow>
      bus1_active_drain a w f k =
        Some (True, k\<lparr>mem := (mem k)(a := BUS1_ACTIVE_DRAINED),
                       klog := klog k @ STORE a BUS1_ACTIVE_RELEASE # callback_events f a @
                         [STORE a BUS1_ACTIVE_DRAINED, WAKE_UP_ALL w]\<rparr>)) \<and>
   (bus1_active_is_deactivated a k \<and> mem k a \<le>s BUS1_ACTIVE_BIAS \<and> \<not> drained_by (mem k a) \<longrightarrow>
      bus1_active_drain a w f k =
        (if mem k a = BUS1_ACTIVE_DRAINED then Some (False, k) else None)) \<and>
   ((mem k a = BUS1_ACTIVE_RELEASE_DIRECT \<or> mem k a = BUS1_ACTIVE_BIAS) \<and>
    filter (marks_release a) (klog k) = [] \<and> balanced ls (quiet k) \<longrightarrow>
      (\<forall>x \<in> set (visited ls (quiet k)).
         released_once a x \<and> tally a x \<and> scripted a x \<and>
         (list_all (uses a w) ls \<longrightarrow>
            (\<forall>t. (inside a (pc (threads x t)) \<longrightarrow> can_return a t x) \<and>
                 (between_calls (pc (threads x t)) \<longrightarrow> (\<forall>g. can_drain a w g t x)))))) \<and>
   (filter (marks_release a) (klog k) = [] \<and> balanced ls (boot a k) \<and>
    (\<forall>x \<in> set (visited ls (boot a k)). held x a < 2147483643) \<longrightarrow>
      (\<forall>x \<in> set (visited ls (boot a k)).
         released_once a x \<and> tally a x \<and> scripted a x \<and>
         (list_all (uses a w) ls \<and> bus1_active_is_deactivated a (ks x) \<and> held x a = 0 \<longrightarrow>
            (\<forall>t. (inside a (pc (threads x t)) \<longrightarrow> can_return a t x) \<and>
                 (between_calls (pc (threads x t)) \<longrightarrow> (\<forall>g. can_drain a w g t x))))))"
proof (intro conjI impI)
  assume "mem k a = BUS1_ACTIVE_RELEASE_DIRECT \<or> mem k a = BUS1_ACTIVE_BIAS"
  then show "bus1_active_drain a w f k =
      Some (True, k\<lparr>mem := (mem k)(a := BUS1_ACTIVE_DRAINED),
                     klog := klog k @ STORE a BUS1_ACTIVE_RELEASE # callback_events f a @
                       [STORE a BUS1_ACTIVE_DRAINED, WAKE_UP_ALL w]\<rparr>)"
    by (rule drain_marks)
next
  assume "bus1_active_is_deactivated a k \<and> mem k a \<le>s BUS1_ACTIVE_BIAS \<and>
      \<not> drained_by (mem k a)"
  then show "bus1_active_drain a w f k =
      (if mem k a = BUS1_ACTIVE_DRAINED then Some (False, k) else None)"
    by (simp add: drain_loses)
next
  assume h: "(mem k a = BUS1_ACTIVE_RELEASE_DIRECT \<or> mem k a = BUS1_ACTIVE_BIAS) \<and>
      filter (marks_release a) (klog k) = [] \<and> balanced ls (quiet k)"
  then have "sound a (quiet k) \<and> settled a (quiet k)" by (simp add: sound_quiet)
  then have all: "\<forall>x \<in> set (visited ls (quiet k)). sound a x \<and> settled a x"
    using h run_settled [of a "quiet k" ls] by blast
  show "\<forall>x \<in> set (visited ls (quiet k)).
      released_once a x \<and> tally a x \<and> scripted a x \<and>
      (list_all (uses a w) ls \<longrightarrow>
         (\<forall>t. (inside a (pc (threads x t)) \<longrightarrow> can_return a t x) \<and>
              (between_calls (pc (threads x t)) \<longrightarrow> (\<forall>g. can_drain a w g t x))))"
  proof (intro ballI conjI allI impI)
    fix x
    assume x: "x \<in> set (visited ls (quiet k))"
    then have so: "sound a x" and se: "settled a x" using all by blast+
    show "released_once a x" "tally a x" "scripted a x"
      using so by (simp_all add: sound_def)
    fix t
    assume u: "list_all (uses a w) ls"
    have "\<forall>y \<in> set (visited ls (quiet k)). consistent a y"
      using all by (simp add: sound_def)
    then have "\<forall>y \<in> set (visited ls (quiet k)). awake a w y"
      using h u awake_quiet [of a w k] by (intro run_awake) simp_all
    then have st: "steady a w x" using x so se by (simp add: steady_def)
    show "can_return a t x" if "inside a (pc (threads x t))"
      using st that by (rule drain_can_return)
    show "can_drain a w g t x" if "between_calls (pc (threads x t))" for g
      using st that by (rule drain_can_start)
  qed
next
  assume h: "filter (marks_release a) (klog k) = [] \<and> balanced ls (boot a k) \<and>
      (\<forall>x \<in> set (visited ls (boot a k)). held x a < 2147483643)"
  then have "sound a (boot a k)" by (simp add: sound_boot)
  then have all: "\<forall>x \<in> set (visited ls (boot a k)). sound a x"
    using h run_sound [of a "boot a k" ls] by blast
  show "\<forall>x \<in> set (visited ls (boot a k)).
      released_once a x \<and> tally a x \<and> scripted a x \<and>
      (list_all (uses a w) ls \<and> bus1_active_is_deactivated a (ks x) \<and> held x a = 0 \<longrightarrow>
         (\<forall>t. (inside a (pc (threads x t)) \<longrightarrow> can_return a t x) \<and>
              (between_calls (pc (threads x t)) \<longrightarrow> (\<forall>g. can_drain a w g t x))))"
  proof (intro ballI conjI allI impI)
    fix x
    assume x: "x \<in> set (visited ls (boot a k))"
    then have so: "sound a x" using all by blast
    show "released_once a x" "tally a x" "scripted a x"
      using so by (simp_all add: sound_def)
    fix t
    assume u: "list_all (uses a w) ls \<and> bus1_active_is_deactivated a (ks x) \<and> held x a = 0"
    have "\<forall>y \<in> set (visited ls (boot a k)). consistent a y"
      using all by (simp add: sound_def)
    then have "\<forall>y \<in> set (visited ls (boot a k)). awake a w y"
      using h u awake_boot [of a w k] by (intro run_awake) simp_all
    moreover have "settled a x"
      using so u by (intro settled_counted) (simp_all add: sound_def consistent_def)
    ultimately have st: "steady a w x" using x so by (simp add: steady_def)
    show "can_return a t x" if "inside a (pc (threads x t))"
      using st that by (rule drain_can_return)
    show "can_drain a w g t x" if "between_calls (pc (threads x t))" for g
      using st that by (rule drain_can_start)
  qed
qed

theorem C1_drain_witness:
  "bus1_active_drain 7 3 (Some 9) \<lparr>mem = (\<lambda>_. BUS1_ACTIVE_BIAS), klog = []\<rparr> =
     Some (True, \<lparr>mem = (\<lambda>_. BUS1_ACTIVE_BIAS)(7 := BUS1_ACTIVE_DRAINED),
                   klog = [STORE 7 BUS1_ACTIVE_RELEASE, CALL 9 7, STORE 7 BUS1_ACTIVE_DRAINED,
                           WAKE_UP_ALL 3]\<rparr>) \<and>
   bus1_active_drain 7 3 (Some 9) \<lparr>mem = (\<lambda>_. BUS1_ACTIVE_DRAINED), klog = []\<rparr> =
     Some (False, \<lparr>mem = (\<lambda>_. BUS1_ACTIVE_DRAINED), klog = []\<rparr>) \<and>
   bus1_active_drain 7 3 (Some 9) \<lparr>mem = (\<lambda>_. BUS1_ACTIVE_RELEASE), klog = []\<rparr> = None \<and>
   balanced
     [Invoke 0 (Drain 7 3 (Some 9)), Invoke 1 (Drain 7 3 (Some 8)), Resume 0, Resume 1,
      Resume 0, Resume 1, Resume 1, Resume 0, Resume 0, Resume 1, Resume 0]
     (quiet \<lparr>mem = (\<lambda>_. BUS1_ACTIVE_RELEASE_DIRECT), klog = []\<rparr>) \<and>
   (case run
       [Invoke 0 (Drain 7 3 (Some 9)), Invoke 1 (Drain 7 3 (Some 8)), Resume 0, Resume 1,
        Resume 0, Resume 1, Resume 1, Resume 0, Resume 0, Resume 1, Resume 0]
       (quiet \<lparr>mem = (\<lambda>_. BUS1_ACTIVE_RELEASE_DIRECT), klog = []\<rparr>) of
      None \<Rightarrow> False
    | Some x \<Rightarrow>
        threads x 0 =
          \<lparr>pc = Returned (Drain 7 3 (Some 9)) (RBool True),
           did = [STORE 7 BUS1_ACTIVE_RELEASE, CALL 9 7, STORE 7 BUS1_ACTIVE_DRAINED,
                  WAKE_UP_ALL 3]\<rparr> \<and>
        threads x 1 = \<lparr>pc = Returned (Drain 7 3 (Some 8)) (RBool False), did = []\<rparr> \<and>
        marks 7 x = [STORE 7 BUS1_ACTIVE_RELEASE, CALL 9 7] \<and>
        mem (ks x) 7 = BUS1_ACTIVE_DRAINED \<and> trues 7 x = 1 \<and>
        released_once 7 x \<and> tally 7 x \<and> scripted 7 x) \<and>
   balanced
     [Invoke 0 (Activate 7), Invoke 1 (Acquire (Some 7)), Invoke 2 (Deactivate 7), Resume 2,
      Resume 2, Invoke 0 (Drain 7 3 (Some 9)), Resume 0, Resume 0, Resume 0,
      Invoke 3 (Drain 7 3 (Some 8)), Invoke 1 (Release (Some 7) (Some 3)), Resume 3, Resume 1,
      Resume 0, Resume 0, Resume 0, Resume 0, Resume 3, Resume 0, Resume 3, Resume 3, Resume 3,
      Resume 3, Resume 0, Resume 0, Resume 0, Resume 3, Resume 3, Resume 3]
     (boot 7 \<lparr>mem = (\<lambda>_. 0), klog = []\<rparr>) \<and>
   list_all (\<lambda>x. held x 7 < 2147483643)
     (visited
       [Invoke 0 (Activate 7), Invoke 1 (Acquire (Some 7)), Invoke 2 (Deactivate 7), Resume 2,
        Resume 2, Invoke 0 (Drain 7 3 (Some 9)), Resume 0, Resume 0, Resume 0,
        Invoke 3 (Drain 7 3 (Some 8)), Invoke 1 (Release (Some 7) (Some 3)), Resume 3, Resume 1,
        Resume 0, Resume 0, Resume 0, Resume 0, Resume 3, Resume 0, Resume 3, Resume 3, Resume 3,
        Resume 3, Resume 0, Resume 0, Resume 0, Resume 3, Resume 3, Resume 3]
       (boot 7 \<lparr>mem = (\<lambda>_. 0), klog = []\<rparr>)) \<and>
   list_all (uses 7 3)
     [Invoke 0 (Activate 7), Invoke 1 (Acquire (Some 7)), Invoke 2 (Deactivate 7), Resume 2,
      Resume 2, Invoke 0 (Drain 7 3 (Some 9)), Resume 0, Resume 0, Resume 0,
      Invoke 3 (Drain 7 3 (Some 8)), Invoke 1 (Release (Some 7) (Some 3)), Resume 3, Resume 1,
      Resume 0, Resume 0, Resume 0, Resume 0, Resume 3, Resume 0, Resume 3, Resume 3, Resume 3,
      Resume 3, Resume 0, Resume 0, Resume 0, Resume 3, Resume 3, Resume 3] \<and>
   (case run
       [Invoke 0 (Activate 7), Invoke 1 (Acquire (Some 7)), Invoke 2 (Deactivate 7), Resume 2,
        Resume 2, Invoke 0 (Drain 7 3 (Some 9)), Resume 0, Resume 0, Resume 0,
        Invoke 3 (Drain 7 3 (Some 8)), Invoke 1 (Release (Some 7) (Some 3))]
       (boot 7 \<lparr>mem = (\<lambda>_. 0), klog = []\<rparr>) of
      None \<Rightarrow> False
    | Some x \<Rightarrow>
        pc (threads x 0) = Drain_wait 7 3 (Some 9) (Sleep 0) \<and>
        pc (threads x 1) = Release_wake 7 3 \<and>
        pc (threads x 3) = Drain_wait 7 3 (Some 8) Test \<and>
        mem (ks x) 7 = BUS1_ACTIVE_BIAS \<and> held x 7 = 0 \<and> marks 7 x = [] \<and>
        can_return 7 0 x \<and> can_return 7 3 x \<and> can_drain 7 3 None 2 x) \<and>
   (case run
       [Invoke 0 (Activate 7), Invoke 1 (Acquire (Some 7)), Invoke 2 (Deactivate 7), Resume 2,
        Resume 2, Invoke 0 (Drain 7 3 (Some 9)), Resume 0, Resume 0, Resume 0,
        Invoke 3 (Drain 7 3 (Some 8)), Invoke 1 (Release (Some 7) (Some 3)), Resume 3, Resume 1,
        Resume 0, Resume 0, Resume 0, Resume 0, Resume 3, Resume 0, Resume 3, Resume 3, Resume 3,
        Resume 3, Resume 0, Resume 0, Resume 0, Resume 3, Resume 3, Resume 3]
       (boot 7 \<lparr>mem = (\<lambda>_. 0), klog = []\<rparr>) of
      None \<Rightarrow> False
    | Some x \<Rightarrow>
        threads x 0 =
          \<lparr>pc = Returned (Drain 7 3 (Some 9)) (RBool True),
           did = [STORE 7 BUS1_ACTIVE_RELEASE, CALL 9 7, STORE 7 BUS1_ACTIVE_DRAINED,
                  WAKE_UP_ALL 3]\<rparr> \<and>
        threads x 3 = \<lparr>pc = Returned (Drain 7 3 (Some 8)) (RBool False), did = []\<rparr> \<and>
        marks 7 x = [STORE 7 BUS1_ACTIVE_RELEASE, CALL 9 7] \<and>
        mem (ks x) 7 = BUS1_ACTIVE_DRAINED \<and> trues 7 x = 1 \<and>
        released_once 7 x \<and> tally 7 x \<and> scripted 7 x)"
proof -
  let ?lq = "[Invoke 0 (Drain 7 3 (Some 9)), Invoke 1 (Drain 7 3 (Some 8)), Resume 0, Resume 1,
      Resume 0, Resume 1, Resume 1, Resume 0, Resume 0, Resume 1, Resume 0]"
  let ?lb = "[Invoke 0 (Activate 7), Invoke 1 (Acquire (Some 7)), Invoke 2 (Deactivate 7), Resume 2,
      Resume 2, Invoke 0 (Drain 7 3 (Some 9)), Resume 0, Resume 0, Resume 0,
      Invoke 3 (Drain 7 3 (Some 8)), Invoke 1 (Release (Some 7) (Some 3)), Resume 3, Resume 1,
      Resume 0, Resume 0, Resume 0, Resume 0, Resume 3, Resume 0, Resume 3, Resume 3, Resume 3,
      Resume 3, Resume 0, Resume 0, Resume 0, Resume 3, Resume 3, Resume 3]"
  let ?k = "\<lparr>mem = (\<lambda>_. BUS1_ACTIVE_RELEASE_DIRECT), klog = []\<rparr>"
  let ?z = "\<lparr>mem = (\<lambda>_. 0 :: s32), klog = []\<rparr>"
  let ?w = "\<lparr>mem = (\<lambda>_. BUS1_ACTIVE_BIAS), klog = []\<rparr>"
  let ?d = "\<lparr>mem = (\<lambda>_. BUS1_ACTIVE_DRAINED), klog = []\<rparr>"
  let ?r = "\<lparr>mem = (\<lambda>_. BUS1_ACTIVE_RELEASE), klog = []\<rparr>"
  have won: "mem ?w 7 = BUS1_ACTIVE_RELEASE_DIRECT \<or> mem ?w 7 = BUS1_ACTIVE_BIAS"
    by simp
  have lost: "bus1_active_is_deactivated 7 ?d \<and> mem ?d 7 \<le>s BUS1_ACTIVE_BIAS \<and>
      \<not> drained_by (mem ?d 7)"
    "bus1_active_is_deactivated 7 ?r \<and> mem ?r 7 \<le>s BUS1_ACTIVE_BIAS \<and>
      \<not> drained_by (mem ?r 7)"
    by (simp_all add: machine_defs)
  have 1: "bus1_active_drain 7 3 (Some 9) ?w =
      Some (True, ?w\<lparr>mem := (mem ?w)(7 := BUS1_ACTIVE_DRAINED),
        klog := klog ?w @ STORE 7 BUS1_ACTIVE_RELEASE # callback_events (Some 9) 7 @
          [STORE 7 BUS1_ACTIVE_DRAINED, WAKE_UP_ALL 3]\<rparr>)"
    using C1_drain [of ?w 7 3 "Some 9" "[]"] won by blast
  have 2: "bus1_active_drain 7 3 (Some 9) ?d =
      (if mem ?d 7 = BUS1_ACTIVE_DRAINED then Some (False, ?d) else None)"
    using C1_drain [of ?d 7 3 "Some 9" "[]"] lost(1) by blast
  have 3: "bus1_active_drain 7 3 (Some 9) ?r =
      (if mem ?r 7 = BUS1_ACTIVE_DRAINED then Some (False, ?r) else None)"
    using C1_drain [of ?r 7 3 "Some 9" "[]"] lost(2) by blast
  have balq: "balanced ?lq (quiet ?k)"
    by (simp add: machine_defs)
  obtain xq where xq: "run ?lq (quiet ?k) = Some xq"
    "threads xq 0 =
       \<lparr>pc = Returned (Drain 7 3 (Some 9)) (RBool True),
        did = [STORE 7 BUS1_ACTIVE_RELEASE, CALL 9 7, STORE 7 BUS1_ACTIVE_DRAINED,
               WAKE_UP_ALL 3]\<rparr>"
    "threads xq 1 = \<lparr>pc = Returned (Drain 7 3 (Some 8)) (RBool False), did = []\<rparr>"
    "marks 7 xq = [STORE 7 BUS1_ACTIVE_RELEASE, CALL 9 7]"
    "mem (ks xq) 7 = BUS1_ACTIVE_DRAINED" "trues 7 xq = 1"
    by (simp add: machine_defs marks_def trues_def wakes_def)
  have startq: "(mem ?k 7 = BUS1_ACTIVE_RELEASE_DIRECT \<or> mem ?k 7 = BUS1_ACTIVE_BIAS) \<and>
      filter (marks_release 7) (klog ?k) = [] \<and> balanced ?lq (quiet ?k)"
    using balq by simp
  have allq: "\<forall>x \<in> set (visited ?lq (quiet ?k)).
      released_once 7 x \<and> tally 7 x \<and> scripted 7 x \<and>
      (list_all (uses 7 3) ?lq \<longrightarrow>
         (\<forall>t. (inside 7 (pc (threads x t)) \<longrightarrow> can_return 7 t x) \<and>
              (between_calls (pc (threads x t)) \<longrightarrow> (\<forall>g. can_drain 7 3 g t x))))"
    using C1_drain [of ?k 7 3 None ?lq] startq by blast
  have "xq \<in> set (visited (?lq @ []) (quiet ?k))"
    using xq(1) by (rule run_visited)
  then have "xq \<in> set (visited ?lq (quiet ?k))"
    by (simp only: append_Nil2)
  from bspec [OF allq this] have 4: "released_once 7 xq \<and> tally 7 xq \<and> scripted 7 xq"
    by blast
  let ?pre = "[Invoke 0 (Activate 7), Invoke 1 (Acquire (Some 7)), Invoke 2 (Deactivate 7), Resume 2,
      Resume 2, Invoke 0 (Drain 7 3 (Some 9)), Resume 0, Resume 0, Resume 0,
      Invoke 3 (Drain 7 3 (Some 8)), Invoke 1 (Release (Some 7) (Some 3))]"
  let ?rest = "[Resume 3, Resume 1, Resume 0, Resume 0, Resume 0, Resume 0, Resume 3, Resume 0,
      Resume 3, Resume 3, Resume 3, Resume 3, Resume 0, Resume 0, Resume 0, Resume 3, Resume 3,
      Resume 3]"
  have balb: "balanced ?lb (boot 7 ?z)"
    by (simp add: machine_defs wakes_def)
  have few: "list_all (\<lambda>x. held x 7 < 2147483643) (visited ?lb (boot 7 ?z))"
    by (simp add: machine_defs wakes_def)
  have us: "list_all (uses 7 3) ?lb"
    by simp
  obtain xm where xm: "run ?pre (boot 7 ?z) = Some xm"
    "pc (threads xm 0) = Drain_wait 7 3 (Some 9) (Sleep 0)"
    "pc (threads xm 1) = Release_wake 7 3"
    "pc (threads xm 3) = Drain_wait 7 3 (Some 8) Test"
    "mem (ks xm) 7 = BUS1_ACTIVE_BIAS" "held xm 7 = 0" "marks 7 xm = []"
    "between_calls (pc (threads xm 2))"
    by (simp add: machine_defs marks_def wakes_def)
  obtain xb where xb: "run ?lb (boot 7 ?z) = Some xb"
    "threads xb 0 =
       \<lparr>pc = Returned (Drain 7 3 (Some 9)) (RBool True),
        did = [STORE 7 BUS1_ACTIVE_RELEASE, CALL 9 7, STORE 7 BUS1_ACTIVE_DRAINED,
               WAKE_UP_ALL 3]\<rparr>"
    "threads xb 3 = \<lparr>pc = Returned (Drain 7 3 (Some 8)) (RBool False), did = []\<rparr>"
    "marks 7 xb = [STORE 7 BUS1_ACTIVE_RELEASE, CALL 9 7]"
    "mem (ks xb) 7 = BUS1_ACTIVE_DRAINED" "trues 7 xb = 1"
    by (simp add: machine_defs marks_def trues_def wakes_def)
  have startb: "filter (marks_release 7) (klog ?z) = [] \<and> balanced ?lb (boot 7 ?z) \<and>
      (\<forall>x \<in> set (visited ?lb (boot 7 ?z)). held x 7 < 2147483643)"
    using balb few by (simp add: list_all_iff)
  have all: "\<forall>x \<in> set (visited ?lb (boot 7 ?z)).
      released_once 7 x \<and> tally 7 x \<and> scripted 7 x \<and>
      (list_all (uses 7 3) ?lb \<and> bus1_active_is_deactivated 7 (ks x) \<and> held x 7 = 0 \<longrightarrow>
         (\<forall>t. (inside 7 (pc (threads x t)) \<longrightarrow> can_return 7 t x) \<and>
              (between_calls (pc (threads x t)) \<longrightarrow> (\<forall>g. can_drain 7 3 g t x))))"
    using C1_drain [of ?z 7 3 None ?lb] startb by blast
  have "xm \<in> set (visited (?pre @ ?rest) (boot 7 ?z))"
    using xm(1) by (rule run_visited)
  then have "xm \<in> set (visited ?lb (boot 7 ?z))"
    by (simp only: append.simps)
  from bspec [OF all this]
  have at: "list_all (uses 7 3) ?lb \<and> bus1_active_is_deactivated 7 (ks xm) \<and>
      held xm 7 = 0 \<longrightarrow>
      (\<forall>t. (inside 7 (pc (threads xm t)) \<longrightarrow> can_return 7 t xm) \<and>
           (between_calls (pc (threads xm t)) \<longrightarrow> (\<forall>g. can_drain 7 3 g t xm)))"
    by blast
  have de: "bus1_active_is_deactivated 7 (ks xm)"
    using xm(5) by (simp add: machine_defs)
  have "inside 7 (pc (threads xm 0))" "inside 7 (pc (threads xm 3))"
    using xm(2,4) by (simp_all add: inside_def)
  then have 5: "can_return 7 0 xm \<and> can_return 7 3 xm \<and> can_drain 7 3 None 2 xm"
    using at us de xm(6,8) by blast
  have "xb \<in> set (visited (?lb @ []) (boot 7 ?z))"
    using xb(1) by (rule run_visited)
  then have "xb \<in> set (visited ?lb (boot 7 ?z))"
    by (simp only: append_Nil2)
  from bspec [OF all this] have 6: "released_once 7 xb \<and> tally 7 xb \<and> scripted 7 xb"
    by blast
  show ?thesis
    using 1 2 3 balq xq 4 balb few us xm 5 xb 6 by (simp add: active_consts)
qed

text \<open>
  C2, as the source has it. The bias is \<open>INT_MIN + 5\<close> and acquire has no upper limit.
  After activate and \<open>2 ^ 31 - 5\<close> acquires the counter stands at the negated bias, so
  a deactivate adds the bias and leaves the counter at 0: the object is still
  \<open>ACTIVE\<close>. A second deactivate and a drain then take it to \<open>DRAINED\<close> while all the
  references are still held, and the release of one of them, which balances an
  acquire, takes the counter from \<open>DRAINED\<close> to \<open>NEW\<close>: the state that was left first
  is visited again, out of the state that has no edge leaving it. No addition in this
  run overflows.
\<close>

theorem C2_teardown_with_references_counterexample:
  "balanced (Invoke 0 (Activate 7) # replicate 2147483643 (Invoke 0 (Acquire (Some 7))) @
      [Invoke 0 (Deactivate 7), Resume 0, Resume 0, Invoke 0 (Deactivate 7), Resume 0, Resume 0,
       Invoke 0 (Drain 7 3 None), Resume 0, Resume 0, Resume 0, Resume 0, Resume 0, Resume 0,
       Invoke 0 (Release (Some 7) None)])
     (boot 7 \<lparr>mem = (\<lambda>_. 0), klog = []\<rparr>) \<and>
   lifecycle_of (mem (ks (boot 7 \<lparr>mem = (\<lambda>_. 0), klog = []\<rparr>)) 7) = St_NEW \<and>
   map_option (\<lambda>x. lifecycle_of (mem (ks x) 7))
     (run (Invoke 0 (Activate 7) # replicate 2147483643 (Invoke 0 (Acquire (Some 7))))
       (boot 7 \<lparr>mem = (\<lambda>_. 0), klog = []\<rparr>)) = Some (St_ACTIVE 2147483643) \<and>
   map_option (\<lambda>x. lifecycle_of (mem (ks x) 7))
     (run (Invoke 0 (Activate 7) # replicate 2147483643 (Invoke 0 (Acquire (Some 7))) @
        [Invoke 0 (Deactivate 7), Resume 0, Resume 0])
       (boot 7 \<lparr>mem = (\<lambda>_. 0), klog = []\<rparr>)) = Some (St_ACTIVE 0) \<and>
   map_option (\<lambda>x. lifecycle_of (mem (ks x) 7))
     (run (Invoke 0 (Activate 7) # replicate 2147483643 (Invoke 0 (Acquire (Some 7))) @
        [Invoke 0 (Deactivate 7), Resume 0, Resume 0, Invoke 0 (Deactivate 7), Resume 0, Resume 0,
         Invoke 0 (Drain 7 3 None), Resume 0, Resume 0, Resume 0, Resume 0, Resume 0, Resume 0])
       (boot 7 \<lparr>mem = (\<lambda>_. 0), klog = []\<rparr>)) = Some St_DRAINED \<and>
   map_option (\<lambda>x. lifecycle_of (mem (ks x) 7))
     (run (Invoke 0 (Activate 7) # replicate 2147483643 (Invoke 0 (Acquire (Some 7))) @
        [Invoke 0 (Deactivate 7), Resume 0, Resume 0, Invoke 0 (Deactivate 7), Resume 0, Resume 0,
         Invoke 0 (Drain 7 3 None), Resume 0, Resume 0, Resume 0, Resume 0, Resume 0, Resume 0,
         Invoke 0 (Release (Some 7) None)])
       (boot 7 \<lparr>mem = (\<lambda>_. 0), klog = []\<rparr>)) = Some St_NEW"
proof -
  define n :: nat where "n = 2147483643"
  define acqs where "acqs = replicate n (Invoke 0 (Acquire (Some (7::nat))))"
  define b where "b = boot 7 \<lparr>mem = (\<lambda>_. 0), klog = []\<rparr>"
  define d1 where "d1 = [Invoke 0 (Deactivate 7), Resume 0, Resume 0]"
  define d2 where "d2 = [Invoke 0 (Deactivate 7), Resume 0, Resume 0, Invoke 0 (Deactivate 7),
      Resume 0, Resume 0, Invoke 0 (Drain 7 3 None), Resume 0, Resume 0, Resume 0, Resume 0,
      Resume 0, Resume 0]"
  define d3 where "d3 = [Invoke 0 (Deactivate 7), Resume 0, Resume 0, Invoke 0 (Deactivate 7),
      Resume 0, Resume 0, Invoke 0 (Drain 7 3 None), Resume 0, Resume 0, Resume 0, Resume 0,
      Resume 0, Resume 0, Invoke 0 (Release (Some 7) None)]"
  have b0: "lifecycle_of (mem (ks b) 7) = St_NEW"
    by (simp add: b_def boot_def quiet_def bus1_active_init_def lifecycle_of_sint sint_consts)
  obtain s1 where s1: "step (Invoke 0 (Activate 7)) b = Some s1" "mem (ks s1) 7 = 0"
    "held s1 7 = 0" "between_calls (pc (threads s1 0))"
    by (simp add: b_def boot_def quiet_def bus1_active_init_def atomic_cmpxchg_def)
  have "sint (mem (ks s1) 7) + int n \<le> 2147483648" using s1(2) by (simp add: n_def)
  then obtain s2 where s2: "run acqs s1 = Some s2" "mem (ks s2) 7 = mem (ks s1) 7 + of_nat n"
    "held s2 7 = held s1 7 + n" "between_calls (pc (threads s2 0))"
    using acquire_many [of s1 0 7 n] s1 unfolding acqs_def by auto
  have m2: "mem (ks s2) 7 = 2147483643" using s2(2) s1(2) by (simp add: n_def)
  have h2: "0 < held s2 7" using s2(3) by (simp add: n_def)
  note t = teardown_with_references [OF s2(4) m2 h2, folded d1_def d2_def d3_def]
  have r: "run (Invoke 0 (Activate 7) # acqs) b = Some s2"
    "run (Invoke 0 (Activate 7) # acqs @ d1) b = run d1 s2"
    "run (Invoke 0 (Activate 7) # acqs @ d2) b = run d2 s2"
    "run (Invoke 0 (Activate 7) # acqs @ d3) b = run d3 s2"
    using s1(1) s2(1) by (simp_all add: run_append)
  have bal: "balanced (Invoke 0 (Activate 7) # acqs @ d3) b"
    using s1(1) s2(1) t balanced_acquires [of n 0 7 s1]
    by (simp add: balanced_append acqs_def)
  have l: "lifecycle_of (2147483643 :: s32) = St_ACTIVE 2147483643"
    "lifecycle_of (0 :: s32) = St_ACTIVE 0"
    "lifecycle_of BUS1_ACTIVE_DRAINED = St_DRAINED"
    "lifecycle_of BUS1_ACTIVE_NEW = St_NEW"
    by (simp_all add: lifecycle_of_sint sint_consts)
  have "map_option (\<lambda>x. lifecycle_of (mem (ks x) 7)) (run d1 s2) = Some (St_ACTIVE 0)"
    "map_option (\<lambda>x. lifecycle_of (mem (ks x) 7)) (run d2 s2) = Some St_DRAINED"
    "map_option (\<lambda>x. lifecycle_of (mem (ks x) 7)) (run d3 s2) = Some St_NEW"
    using t l by (auto simp: map_option_case split: option.splits)
  then show ?thesis
    using bal b0 r m2 l
    unfolding acqs_def n_def b_def d1_def d2_def d3_def by simp
qed

text \<open>
  C2, amended. From a freshly initialised object, along every interleaving of
  activate, acquire, release, deactivate and drain calls in which each release gives
  back a held reference and fewer than \<open>2 ^ 31 - 5\<close> references, the negated bias, are
  held at any time, each step leaves the lifecycle state where it is or moves it along
  an edge of the graph, and no state is visited again after it was left.
\<close>

theorem C2_lifecycle_forward:
  "balanced ls (boot a k) \<and> (\<forall>x \<in> set (visited ls (boot a k)). held x a < 2147483643) \<longrightarrow>
   follows_edges (trajectory a ls (boot a k)) \<and>
   never_revisits (map rank (trajectory a ls (boot a k)))"
  using run_consistent [of a "boot a k" ls] consistent_boot [of a k]
  by (simp add: sorted_never_revisits)

theorem C2_lifecycle_forward_witness:
  "balanced
     [Invoke 0 (Activate 7), Invoke 1 (Acquire (Some 7)), Invoke 2 (Deactivate 7), Resume 2,
      Resume 2, Invoke 3 (Acquire (Some 7)), Invoke 0 (Drain 7 3 (Some 9)),
      Invoke 1 (Release (Some 7) (Some 3)), Resume 1, Resume 0, Resume 0, Resume 0, Resume 0,
      Resume 0, Resume 0]
     (boot 7 \<lparr>mem = (\<lambda>_. 0), klog = []\<rparr>) \<and>
   list_all (\<lambda>x. held x 7 < 2147483643)
     (visited
       [Invoke 0 (Activate 7), Invoke 1 (Acquire (Some 7)), Invoke 2 (Deactivate 7), Resume 2,
        Resume 2, Invoke 3 (Acquire (Some 7)), Invoke 0 (Drain 7 3 (Some 9)),
        Invoke 1 (Release (Some 7) (Some 3)), Resume 1, Resume 0, Resume 0, Resume 0, Resume 0,
        Resume 0, Resume 0]
       (boot 7 \<lparr>mem = (\<lambda>_. 0), klog = []\<rparr>)) \<and>
   trajectory 7
     [Invoke 0 (Activate 7), Invoke 1 (Acquire (Some 7)), Invoke 2 (Deactivate 7), Resume 2,
      Resume 2, Invoke 3 (Acquire (Some 7)), Invoke 0 (Drain 7 3 (Some 9)),
      Invoke 1 (Release (Some 7) (Some 3)), Resume 1, Resume 0, Resume 0, Resume 0, Resume 0,
      Resume 0, Resume 0]
     (boot 7 \<lparr>mem = (\<lambda>_. 0), klog = []\<rparr>) =
     [St_NEW, St_ACTIVE 0, St_ACTIVE 1, St_ACTIVE 1, St_ACTIVE 1, St_DRAINING 1, St_DRAINING 1,
      St_DRAINING 1, St_DRAINING 0, St_DRAINING 0, St_DRAINING 0, St_DRAINING 0, St_RELEASE,
      St_RELEASE, St_DRAINED, St_DRAINED] \<and>
   never_revisits (map rank (trajectory 7
     [Invoke 0 (Activate 7), Invoke 1 (Acquire (Some 7)), Invoke 2 (Deactivate 7), Resume 2,
      Resume 2, Invoke 3 (Acquire (Some 7)), Invoke 0 (Drain 7 3 (Some 9)),
      Invoke 1 (Release (Some 7) (Some 3)), Resume 1, Resume 0, Resume 0, Resume 0, Resume 0,
      Resume 0, Resume 0]
     (boot 7 \<lparr>mem = (\<lambda>_. 0), klog = []\<rparr>)))"
proof -
  let ?ls = "[Invoke 0 (Activate 7), Invoke 1 (Acquire (Some 7)), Invoke 2 (Deactivate 7),
      Resume 2, Resume 2, Invoke 3 (Acquire (Some 7)), Invoke 0 (Drain 7 3 (Some 9)),
      Invoke 1 (Release (Some 7) (Some 3)), Resume 1, Resume 0, Resume 0, Resume 0, Resume 0,
      Resume 0, Resume 0]"
  let ?b = "boot 7 \<lparr>mem = (\<lambda>_. 0), klog = []\<rparr>"
  have bal: "balanced ?ls ?b"
    by (simp add: machine_defs)
  have few: "list_all (\<lambda>x. held x 7 < 2147483643) (visited ?ls ?b)"
    by (simp add: machine_defs)
  have tr: "trajectory 7 ?ls ?b =
     [St_NEW, St_ACTIVE 0, St_ACTIVE 1, St_ACTIVE 1, St_ACTIVE 1, St_DRAINING 1, St_DRAINING 1,
      St_DRAINING 1, St_DRAINING 0, St_DRAINING 0, St_DRAINING 0, St_DRAINING 0, St_RELEASE,
      St_RELEASE, St_DRAINED, St_DRAINED]"
    by (simp add: trajectory_def lifecycle_of_def machine_defs)
  have "never_revisits (map rank (trajectory 7 ?ls ?b))"
    using C2_lifecycle_forward [of ?ls 7 "\<lparr>mem = (\<lambda>_. 0), klog = []\<rparr>"] bal few
    by (simp add: list_all_iff)
  then show ?thesis using bal few tr by simp
qed
end
